theory Spec2Isabelle
  imports Main "HOL-Library.Monad_Syntax" "HOL-Library.Multiset"
begin

section \<open>The memory the queue lives in\<close>

text \<open>
  \<^verbatim>\<open>priority_queue.hpp\<close> keeps its elements in nodes allocated with \<^verbatim>\<open>new\<close>, linked by raw
  pointers and updated in place. The model therefore has an explicit store: a node lives at
  an address, a pointer is an \<open>addr option\<close> (\<open>None\<close> is \<^verbatim>\<open>nullptr\<close>), and every
  \<^verbatim>\<open>x->field\<close> is a lookup in the store.
\<close>

type_synonym addr = nat

text \<open>
  \<^verbatim>\<open>struct Node { T val; Node *left; Node *right; int dist; }\<close>
  \<open>dist\<close> is an unbounded integer here: a node of rank \<open>r\<close> heads at least \<open>2 ^ r - 1\<close> nodes,
  so the ranks of a tree that fits in memory stay far inside the range of a C++ \<^verbatim>\<open>int\<close>.
\<close>

record 'a node =
  val :: 'a
  left :: "addr option"
  right :: "addr option"
  dist :: int

text \<open>
  The free store: the live nodes, and the addresses the allocator has left to hand out, in
  the order in which it will hand them out. An empty list is an exhausted allocator.
\<close>

record 'a heap =
  cells :: "addr \<rightharpoonup> 'a node"
  free :: "addr list"

text \<open>
  What a call can throw: \<^verbatim>\<open>container_is_empty\<close> (from \<^verbatim>\<open>exceptions.hpp\<close>), whatever the
  user's comparator throws, and \<^verbatim>\<open>std::bad_alloc\<close> from \<^verbatim>\<open>new\<close>.
\<close>

datatype error = container_is_empty | compare_threw | bad_alloc

text \<open>
  A call either returns a value or throws; both leave a state behind. Functions that
  follow pointers return an \<open>option\<close> of that: \<open>None\<close> means the call has no defined result,
  because it never returns or because it reads through a pointer to no live node.
\<close>

datatype ('r, 's) outcome = Ok 'r 's | Throw error 's

fun after :: "('r, 's) outcome \<Rightarrow> 's" where
  "after (Ok r s) = s"
| "after (Throw e s) = s"

text \<open>\<^verbatim>\<open>new Node(v)\<close>, with the constructor \<^verbatim>\<open>val(v), left(nullptr), right(nullptr), dist(1)\<close>.\<close>

definition new_Node :: "'a \<Rightarrow> 'a heap \<Rightarrow> (addr, 'a heap) outcome" where
  "new_Node v h =
     (case free h of
        [] \<Rightarrow> Throw bad_alloc h
      | p # ps \<Rightarrow>
          Ok p (h\<lparr>cells := (cells h)(p \<mapsto> \<lparr>val = v, left = None, right = None, dist = 1\<rparr>),
                 free := ps\<rparr>))"

text \<open>
  \<^verbatim>\<open>delete x\<close>; deleting \<^verbatim>\<open>nullptr\<close> does nothing. The address goes back to the allocator,
  which hands it out again first.
\<close>

definition delete :: "addr option \<Rightarrow> 'a heap \<Rightarrow> 'a heap" where
  "delete x h =
     (case x of
        None \<Rightarrow> h
      | Some p \<Rightarrow> h\<lparr>cells := (cells h)(p := None), free := p # free h\<rparr>)"

text \<open>A write to the node at \<open>p\<close>.\<close>

definition store :: "addr \<Rightarrow> 'a node \<Rightarrow> 'a heap \<Rightarrow> 'a heap" where
  "store p n h = h\<lparr>cells := (cells h)(p \<mapsto> n)\<rparr>"

text \<open>
  The allocator's contract: the addresses it will hand out are distinct and none of them
  is live.
\<close>

definition alloc_ok :: "'a heap \<Rightarrow> bool" where
  "alloc_ok h = (distinct (free h) \<and> (\<forall>p \<in> set (free h). cells h p = None))"

section \<open>The leftist heap\<close>

text \<open>\<^verbatim>\<open>static int npl(Node *x) { return x ? x->dist : 0; }\<close>\<close>

definition npl :: "'a heap \<Rightarrow> addr option \<Rightarrow> int option" where
  "npl h x = (case x of None \<Rightarrow> Some 0 | Some p \<Rightarrow> map_option dist (cells h p))"

text \<open>
  \<^verbatim>\<open>Node *meld(Node *a, Node *b)\<close>. The comparator \<open>c\<close> answers \<open>None\<close> when it throws.
  The state a throw leaves behind is the store at the moment of the throw.
\<close>

partial_function (option) meld ::
  "('a \<Rightarrow> 'a \<Rightarrow> bool option) \<Rightarrow> addr option \<Rightarrow> addr option \<Rightarrow> 'a heap
     \<Rightarrow> (addr option, 'a heap) outcome option" where
  "meld c a b h =
     (case a of
        None \<Rightarrow> Some (Ok b h)
      | Some pa \<Rightarrow>
     (case b of
        None \<Rightarrow> Some (Ok a h)
      | Some pb \<Rightarrow>
          do {
            na \<leftarrow> cells h pa;
            nb \<leftarrow> cells h pb;
            (case c (val na) (val nb) of
               None \<Rightarrow> Some (Throw compare_threw h)
             | Some sw \<Rightarrow>
                 do {
                   let (a, b) = (if sw then (pb, pa) else (pa, pb));
                   n0 \<leftarrow> cells h a;
                   res \<leftarrow> meld c (right n0) (Some b) h;
                   (case res of
                      Throw e h' \<Rightarrow> Some (Throw e h')
                    | Ok nr h1 \<Rightarrow>
                        do {
                          n1 \<leftarrow> cells h1 a;
                          let h2 = store a (n1\<lparr>right := nr\<rparr>) h1;
                          n2 \<leftarrow> cells h2 a;
                          dl \<leftarrow> npl h2 (left n2);
                          dr \<leftarrow> npl h2 (right n2);
                          let h3 = (if dl < dr
                                    then store a (n2\<lparr>left := right n2, right := left n2\<rparr>) h2
                                    else h2);
                          n3 \<leftarrow> cells h3 a;
                          d \<leftarrow> npl h3 (right n3);
                          Some (Ok (Some a) (store a (n3\<lparr>dist := d + 1\<rparr>) h3))
                        })
                 })
          }))"

declare meld.simps [code]

text \<open>\<^verbatim>\<open>static void destroy(Node *x)\<close>\<close>

partial_function (option) destroy :: "addr option \<Rightarrow> 'a heap \<Rightarrow> 'a heap option" where
  "destroy x h =
     (case x of
        None \<Rightarrow> Some h
      | Some p \<Rightarrow>
          do {
            n \<leftarrow> cells h p;
            h1 \<leftarrow> destroy (left n) h;
            n1 \<leftarrow> cells h1 p;
            h2 \<leftarrow> destroy (right n1) h1;
            _ \<leftarrow> cells h2 p;
            Some (delete (Some p) h2)
          })"

declare destroy.simps [code]

text \<open>
  \<^verbatim>\<open>static Node *clone(Node *x)\<close>. There is no handler in it: when a recursive call
  throws, the node \<open>n\<close> allocated before it stays in the store.
\<close>

partial_function (option) clone ::
  "addr option \<Rightarrow> 'a heap \<Rightarrow> (addr option, 'a heap) outcome option" where
  "clone x h =
     (case x of
        None \<Rightarrow> Some (Ok None h)
      | Some p \<Rightarrow>
          do {
            nx \<leftarrow> cells h p;
            (case new_Node (val nx) h of
               Throw e h' \<Rightarrow> Some (Throw e h')
             | Ok n h1 \<Rightarrow>
                 do {
                   nx1 \<leftarrow> cells h1 p;
                   n1 \<leftarrow> cells h1 n;
                   let h2 = store n (n1\<lparr>dist := dist nx1\<rparr>) h1;
                   nx2 \<leftarrow> cells h2 p;
                   rl \<leftarrow> clone (left nx2) h2;
                   (case rl of
                      Throw e h' \<Rightarrow> Some (Throw e h')
                    | Ok l h3 \<Rightarrow>
                        do {
                          n3 \<leftarrow> cells h3 n;
                          let h4 = store n (n3\<lparr>left := l\<rparr>) h3;
                          nx4 \<leftarrow> cells h4 p;
                          rr \<leftarrow> clone (right nx4) h4;
                          (case rr of
                             Throw e h' \<Rightarrow> Some (Throw e h')
                           | Ok r h5 \<Rightarrow>
                               do {
                                 n5 \<leftarrow> cells h5 n;
                                 Some (Ok (Some n) (store n (n5\<lparr>right := r\<rparr>) h5))
                               })
                        })
                 })
          })"

declare clone.simps [code]

section \<open>The queue handle and its public operations\<close>

text \<open>
  \<^verbatim>\<open>Node *root; std::size_t cnt; Compare comp;\<close>
  The count is a \<open>nat\<close>: every unit of it stands for a live node, and the address space has
  fewer nodes than \<^verbatim>\<open>size_t\<close> has values, so the C++ counter does not wrap.
  The field \<open>cmp\<close> is the member \<^verbatim>\<open>comp\<close>.
\<close>

record 'a priority_queue =
  root :: "addr option"
  cnt :: nat
  cmp :: "'a \<Rightarrow> 'a \<Rightarrow> bool option"

text \<open>
  \<^verbatim>\<open>merge\<close> and \<^verbatim>\<open>operator=\<close> compare the addresses of two queue objects, so the queue
  objects live in the state too, each under its handle.
\<close>

record 'a world =
  mem :: "'a heap"
  queues :: "nat \<rightharpoonup> 'a priority_queue"

text \<open>
  \<^verbatim>\<open>priority_queue() = default\<close>, at a handle that holds no object yet. \<open>c\<close> is the
  value-initialised comparator \<^verbatim>\<open>Compare comp{}\<close>.
\<close>

definition construct ::
  "('a \<Rightarrow> 'a \<Rightarrow> bool option) \<Rightarrow> nat \<Rightarrow> 'a world \<Rightarrow> (unit, 'a world) outcome option" where
  "construct c this w =
     (case queues w this of
        Some _ \<Rightarrow> None
      | None \<Rightarrow> Some (Ok () (w\<lparr>queues := (queues w)(this \<mapsto> \<lparr>root = None, cnt = 0, cmp = c\<rparr>)\<rparr>)))"

text \<open>
  \<^verbatim>\<open>priority_queue(const priority_queue &other)\<close>, as the object it builds. When \<open>clone\<close>
  throws the object never comes to exist, and its destructor does not run.
\<close>

definition copy_construct ::
  "'a priority_queue \<Rightarrow> 'a heap \<Rightarrow> ('a priority_queue, 'a heap) outcome option" where
  "copy_construct other h =
     do {
       let q = \<lparr>root = None, cnt = cnt other, cmp = cmp other\<rparr>;
       res \<leftarrow> clone (root other) h;
       (case res of
          Throw e h' \<Rightarrow> Some (Throw e h')
        | Ok r h1 \<Rightarrow> Some (Ok (q\<lparr>root := r\<rparr>) h1))
     }"

text \<open>The copy constructor building a new queue object at the handle \<open>this\<close>.\<close>

definition copy ::
  "nat \<Rightarrow> nat \<Rightarrow> 'a world \<Rightarrow> (unit, 'a world) outcome option" where
  "copy this other w =
     (case queues w this of
        Some _ \<Rightarrow> None
      | None \<Rightarrow>
          do {
            ot \<leftarrow> queues w other;
            res \<leftarrow> copy_construct ot (mem w);
            (case res of
               Throw e h' \<Rightarrow> Some (Throw e (w\<lparr>mem := h'\<rparr>))
             | Ok q h1 \<Rightarrow> Some (Ok () (w\<lparr>mem := h1, queues := (queues w)(this \<mapsto> q)\<rparr>)))
          })"

text \<open>\<^verbatim>\<open>~priority_queue() { destroy(root); }\<close>\<close>

definition destruct :: "nat \<Rightarrow> 'a world \<Rightarrow> (unit, 'a world) outcome option" where
  "destruct this w =
     do {
       q \<leftarrow> queues w this;
       h1 \<leftarrow> destroy (root q) (mem w);
       Some (Ok () (w\<lparr>mem := h1, queues := (queues w)(this := None)\<rparr>))
     }"

text \<open>
  \<^verbatim>\<open>priority_queue &operator=(const priority_queue &other)\<close>. \<open>tmp\<close> is the local copy;
  its destructor runs when the function returns, on the tree swapped into it.
\<close>

definition assign :: "nat \<Rightarrow> nat \<Rightarrow> 'a world \<Rightarrow> (unit, 'a world) outcome option" where
  "assign this other w =
     (if this = other then Some (Ok () w)
      else
        do {
          q \<leftarrow> queues w this;
          ot \<leftarrow> queues w other;
          res \<leftarrow> copy_construct ot (mem w);
          (case res of
             Throw e h' \<Rightarrow> Some (Throw e (w\<lparr>mem := h'\<rparr>))
           | Ok tmp h1 \<Rightarrow>
               do {
                 let tr = root q; let q1 = q\<lparr>root := root tmp\<rparr>; let tmp1 = tmp\<lparr>root := tr\<rparr>;
                 let tc = cnt q1; let q2 = q1\<lparr>cnt := cnt tmp1\<rparr>; let tmp2 = tmp1\<lparr>cnt := tc\<rparr>;
                 let q3 = q2\<lparr>cmp := cmp ot\<rparr>;
                 h2 \<leftarrow> destroy (root tmp2) h1;
                 Some (Ok () (w\<lparr>mem := h2, queues := (queues w)(this \<mapsto> q3)\<rparr>))
               })
        })"

text \<open>\<^verbatim>\<open>size_t size() const { return cnt; }\<close>\<close>

definition size_q :: "nat \<Rightarrow> 'a world \<Rightarrow> nat option" where
  "size_q this w = map_option cnt (queues w this)"

text \<open>\<^verbatim>\<open>bool empty() const { return cnt == 0; }\<close>\<close>

definition empty_q :: "nat \<Rightarrow> 'a world \<Rightarrow> bool option" where
  "empty_q this w = map_option (\<lambda>q. cnt q = 0) (queues w this)"

text \<open>\<^verbatim>\<open>const T &top() const\<close>\<close>

definition top_q :: "nat \<Rightarrow> 'a world \<Rightarrow> ('a, 'a world) outcome option" where
  "top_q this w =
     do {
       e \<leftarrow> empty_q this w;
       if e then Some (Throw container_is_empty w)
       else
         do {
           q \<leftarrow> queues w this;
           r \<leftarrow> root q;
           n \<leftarrow> cells (mem w) r;
           Some (Ok (val n) w)
         }
     }"

text \<open>
  \<^verbatim>\<open>void push(const T &e)\<close>. The handler deletes \<open>n\<close>, which is still \<^verbatim>\<open>nullptr\<close> when
  \<^verbatim>\<open>new\<close> itself threw, and rethrows.
\<close>

definition push :: "nat \<Rightarrow> 'a \<Rightarrow> 'a world \<Rightarrow> (unit, 'a world) outcome option" where
  "push this e w =
     do {
       q \<leftarrow> queues w this;
       (case new_Node e (mem w) of
          Throw x h' \<Rightarrow> Some (Throw x (w\<lparr>mem := delete None h'\<rparr>))
        | Ok n h1 \<Rightarrow>
            do {
              res \<leftarrow> meld (cmp q) (root q) (Some n) h1;
              (case res of
                 Throw x h' \<Rightarrow> Some (Throw x (w\<lparr>mem := delete (Some n) h'\<rparr>))
               | Ok new_root h2 \<Rightarrow>
                   Some (Ok () (w\<lparr>mem := h2,
                      queues := (queues w)(this \<mapsto> q\<lparr>root := new_root, cnt := cnt q + 1\<rparr>)\<rparr>)))
            })
     }"

text \<open>\<^verbatim>\<open>void pop()\<close>. The handler only rethrows.\<close>

definition pop :: "nat \<Rightarrow> 'a world \<Rightarrow> (unit, 'a world) outcome option" where
  "pop this w =
     do {
       e \<leftarrow> empty_q this w;
       if e then Some (Throw container_is_empty w)
       else
         do {
           q \<leftarrow> queues w this;
           old \<leftarrow> root q;
           n \<leftarrow> cells (mem w) old;
           res \<leftarrow> meld (cmp q) (left n) (right n) (mem w);
           (case res of
              Throw x h' \<Rightarrow> Some (Throw x (w\<lparr>mem := h'\<rparr>))
            | Ok new_root h1 \<Rightarrow>
                do {
                  _ \<leftarrow> cells h1 old;
                  Some (Ok () (w\<lparr>mem := delete (Some old) h1,
                     queues := (queues w)(this \<mapsto> q\<lparr>root := new_root, cnt := cnt q - 1\<rparr>)\<rparr>))
                })
         }
     }"

text \<open>\<^verbatim>\<open>void merge(priority_queue &other)\<close>. The handler only rethrows.\<close>

definition merge :: "nat \<Rightarrow> nat \<Rightarrow> 'a world \<Rightarrow> (unit, 'a world) outcome option" where
  "merge this other w =
     (if this = other then Some (Ok () w)
      else
        do {
          q \<leftarrow> queues w this;
          ot \<leftarrow> queues w other;
          res \<leftarrow> meld (cmp q) (root q) (root ot) (mem w);
          (case res of
             Throw x h' \<Rightarrow> Some (Throw x (w\<lparr>mem := h'\<rparr>))
           | Ok new_root h1 \<Rightarrow>
               Some (Ok () (w\<lparr>mem := h1,
                  queues := (queues w)(this \<mapsto> q\<lparr>root := new_root, cnt := cnt q + cnt ot\<rparr>,
                                       other \<mapsto> ot\<lparr>root := None, cnt := 0\<rparr>)\<rparr>)))
        })"

section \<open>Sequences of public calls\<close>

datatype 'a call =
    Construct nat
  | Copy nat nat
  | Destruct nat
  | Assign nat nat
  | Push nat 'a
  | Pop nat
  | Merge nat nat
  | Top nat

text \<open>One call; what is kept of it is the state it leaves, whether it returned or threw.\<close>

fun perform :: "('a \<Rightarrow> 'a \<Rightarrow> bool option) \<Rightarrow> 'a call \<Rightarrow> 'a world \<Rightarrow> 'a world option" where
  "perform c (Construct i) w = map_option after (construct c i w)"
| "perform c (Copy i j) w = map_option after (copy i j w)"
| "perform c (Destruct i) w = map_option after (destruct i w)"
| "perform c (Assign i j) w = map_option after (assign i j w)"
| "perform c (Push i e) w = map_option after (push i e w)"
| "perform c (Pop i) w = map_option after (pop i w)"
| "perform c (Merge i j) w = map_option after (merge i j w)"
| "perform c (Top i) w = map_option after (top_q i w)"

fun run :: "('a \<Rightarrow> 'a \<Rightarrow> bool option) \<Rightarrow> 'a call list \<Rightarrow> 'a world \<Rightarrow> 'a world option" where
  "run c [] w = Some w"
| "run c (x # xs) w = (case perform c x w of None \<Rightarrow> None | Some w1 \<Rightarrow> run c xs w1)"

text \<open>The state before any call: no queue, no node, the allocator's addresses \<open>fs\<close> to come.\<close>

definition start :: "addr list \<Rightarrow> 'a world" where
  "start fs = \<lparr>mem = \<lparr>cells = Map.empty, free = fs\<rparr>, queues = Map.empty\<rparr>"

section \<open>Concrete states\<close>

text \<open>A comparator on \<open>int\<close> that never throws: \<^verbatim>\<open>std::less<int>\<close>.\<close>

definition int_less :: "int \<Rightarrow> int \<Rightarrow> bool option" where
  "int_less x y = Some (x < y)"

text \<open>A comparator that throws when it is given the two sentinels 1 and 2.\<close>

definition sentinel_less :: "int \<Rightarrow> int \<Rightarrow> bool option" where
  "sentinel_less x y = (if (x = 1 \<and> y = 2) \<or> (x = 2 \<and> y = 1) then None else Some (x < y))"

text \<open>Queue 0 after \<^verbatim>\<open>push(5); push(1); push(2)\<close>: the two sentinels are the root's children.\<close>

definition sentinel_world :: "int world" where
  "sentinel_world =
     \<lparr>mem = \<lparr>cells = [10 \<mapsto> \<lparr>val = 5, left = Some 11, right = Some 12, dist = 2\<rparr>,
                       11 \<mapsto> \<lparr>val = 1, left = None, right = None, dist = 1\<rparr>,
                       12 \<mapsto> \<lparr>val = 2, left = None, right = None, dist = 1\<rparr>],
             free = [13]\<rparr>,
      queues = [0 \<mapsto> \<lparr>root = Some 10, cnt = 3, cmp = sentinel_less\<rparr>]\<rparr>"

text \<open>Queue 0 holds the sentinel 1, queue 1 holds the sentinel 2.\<close>

definition sentinel_pair :: "int world" where
  "sentinel_pair =
     \<lparr>mem = \<lparr>cells = [10 \<mapsto> \<lparr>val = 1, left = None, right = None, dist = 1\<rparr>,
                       11 \<mapsto> \<lparr>val = 2, left = None, right = None, dist = 1\<rparr>],
             free = [12]\<rparr>,
      queues = [0 \<mapsto> \<lparr>root = Some 10, cnt = 1, cmp = sentinel_less\<rparr>,
                1 \<mapsto> \<lparr>root = Some 11, cnt = 1, cmp = sentinel_less\<rparr>]\<rparr>"

text \<open>
  Queue 0 holds 5 and 3, queue 1 is empty, and the allocator has one address left.
\<close>

definition tight_world :: "int world" where
  "tight_world =
     \<lparr>mem = \<lparr>cells = [10 \<mapsto> \<lparr>val = 5, left = Some 11, right = None, dist = 1\<rparr>,
                       11 \<mapsto> \<lparr>val = 3, left = None, right = None, dist = 1\<rparr>],
             free = [12]\<rparr>,
      queues = [0 \<mapsto> \<lparr>root = Some 10, cnt = 2, cmp = int_less\<rparr>,
                1 \<mapsto> \<lparr>root = None, cnt = 0, cmp = int_less\<rparr>]\<rparr>"

section \<open>Trees in the store\<close>

text \<open>
  The tree a pointer leads to, written down with the address of every node: \<open>Cell p v d l r\<close>
  is a node at address \<open>p\<close> with \<open>val = v\<close>, \<open>dist = d\<close> and the subtrees \<open>l\<close> and \<open>r\<close>.
\<close>

datatype 'a shape = Null | Cell addr 'a int "'a shape" "'a shape"

fun root_of :: "'a shape \<Rightarrow> addr option" where
  "root_of Null = None"
| "root_of (Cell p v d l r) = Some p"

text \<open>The rank of a subtree as \<open>npl\<close> reads it: the root's \<open>dist\<close> field, 0 for no node.\<close>

fun rk :: "'a shape \<Rightarrow> int" where
  "rk Null = 0"
| "rk (Cell p v d l r) = d"

fun addrs :: "'a shape \<Rightarrow> addr list" where
  "addrs Null = []"
| "addrs (Cell p v d l r) = p # addrs l @ addrs r"

fun elems :: "'a shape \<Rightarrow> 'a multiset" where
  "elems Null = {#}"
| "elems (Cell p v d l r) = {#v#} + elems l + elems r"

text \<open>The store holds the tree: every node of it is live, with these fields and links.\<close>

fun stored :: "(addr \<rightharpoonup> 'a node) \<Rightarrow> 'a shape \<Rightarrow> bool" where
  "stored cs Null = True"
| "stored cs (Cell p v d l r) =
     (cs p = Some \<lparr>val = v, left = root_of l, right = root_of r, dist = d\<rparr>
      \<and> stored cs l \<and> stored cs r)"

text \<open>The two rank invariants, at every node.\<close>

fun leftist :: "'a shape \<Rightarrow> bool" where
  "leftist Null = True"
| "leftist (Cell p v d l r) = (rk r \<le> rk l \<and> d = rk r + 1 \<and> leftist l \<and> leftist r)"

text \<open>Heap order for a relation \<open>R v x\<close>, read as: \<open>x\<close> may sit below \<open>v\<close>.\<close>

fun heap_ordered :: "('a \<Rightarrow> 'a \<Rightarrow> bool) \<Rightarrow> 'a shape \<Rightarrow> bool" where
  "heap_ordered R Null = True"
| "heap_ordered R (Cell p v d l r) =
     ((\<forall>x \<in># elems l + elems r. R v x) \<and> heap_ordered R l \<and> heap_ordered R r)"

text \<open>Same values and ranks at the same places; the addresses may differ.\<close>

fun same_data :: "'a shape \<Rightarrow> 'a shape \<Rightarrow> bool" where
  "same_data Null Null = True"
| "same_data (Cell p v d l r) (Cell p' v' d' l' r') =
     (v = v' \<and> d = d' \<and> same_data l l' \<and> same_data r r')"
| "same_data _ _ = False"

text \<open>
  What \<open>meld\<close> does to the node \<open>p\<close> once the recursive call has returned \<open>nr\<close>: the new right
  child, the swap, the new \<open>dist\<close>.
\<close>

definition relink :: "addr \<Rightarrow> 'a \<Rightarrow> 'a shape \<Rightarrow> 'a shape \<Rightarrow> 'a shape" where
  "relink p v l nr =
     (if rk l < rk nr then Cell p v (rk l + 1) nr l else Cell p v (rk nr + 1) l nr)"

text \<open>\<open>meld\<close> on the trees its two pointers lead to; \<open>None\<close> when the comparator throws.\<close>

function meld_sh ::
  "('a \<Rightarrow> 'a \<Rightarrow> bool option) \<Rightarrow> 'a shape \<Rightarrow> 'a shape \<Rightarrow> 'a shape option" where
  "meld_sh c Null b = Some b"
| "meld_sh c (Cell pa va da la ra) Null = Some (Cell pa va da la ra)"
| "meld_sh c (Cell pa va da la ra) (Cell pb vb db lb rb) =
     (case c va vb of
        None \<Rightarrow> None
      | Some sw \<Rightarrow>
          if sw then map_option (relink pb vb lb) (meld_sh c rb (Cell pa va da la ra))
          else map_option (relink pa va la) (meld_sh c ra (Cell pb vb db lb rb)))"
  by pat_completeness auto
termination
  by (relation "measure (\<lambda>(c, a, b). size a + size b)") auto

text \<open>The statements of \<open>meld\<close> after its recursive call, as a function of their own.\<close>

definition finish :: "addr \<Rightarrow> addr option \<Rightarrow> 'a heap \<Rightarrow> (addr option, 'a heap) outcome option" where
  "finish a nr h1 =
     do {
       n1 \<leftarrow> cells h1 a;
       let h2 = store a (n1\<lparr>right := nr\<rparr>) h1;
       n2 \<leftarrow> cells h2 a;
       dl \<leftarrow> npl h2 (left n2);
       dr \<leftarrow> npl h2 (right n2);
       let h3 = (if dl < dr
                 then store a (n2\<lparr>left := right n2, right := left n2\<rparr>) h2
                 else h2);
       n3 \<leftarrow> cells h3 a;
       d \<leftarrow> npl h3 (right n3);
       Some (Ok (Some a) (store a (n3\<lparr>dist := d + 1\<rparr>) h3))
     }"

text \<open>
  What heap order needs of the comparator: the node \<open>meld\<close> puts on top may have the other
  one below it, and "may sit below" is transitive.
\<close>

definition suits :: "('a \<Rightarrow> 'a \<Rightarrow> bool option) \<Rightarrow> ('a \<Rightarrow> 'a \<Rightarrow> bool) \<Rightarrow> bool" where
  "suits c R =
     ((\<forall>x y z. R x y \<longrightarrow> R y z \<longrightarrow> R x z)
      \<and> (\<forall>x y. c x y = Some True \<longrightarrow> R y x)
      \<and> (\<forall>x y. c x y = Some False \<longrightarrow> R x y))"

text \<open>The statements of \<open>clone\<close> from the first recursive call on, \<open>n\<close> being the new node.\<close>

definition clone_rest ::
  "addr \<Rightarrow> addr \<Rightarrow> 'a heap \<Rightarrow> (addr option, 'a heap) outcome option" where
  "clone_rest p n h2 =
     do {
       nx2 \<leftarrow> cells h2 p;
       rl \<leftarrow> clone (left nx2) h2;
       (case rl of
          Throw e h' \<Rightarrow> Some (Throw e h')
        | Ok l h3 \<Rightarrow>
            do {
              n3 \<leftarrow> cells h3 n;
              let h4 = store n (n3\<lparr>left := l\<rparr>) h3;
              nx4 \<leftarrow> cells h4 p;
              rr \<leftarrow> clone (right nx4) h4;
              (case rr of
                 Throw e h' \<Rightarrow> Some (Throw e h')
               | Ok r h5 \<Rightarrow>
                   do {
                     n5 \<leftarrow> cells h5 n;
                     Some (Ok (Some n) (store n (n5\<lparr>right := r\<rparr>) h5))
                   })
            })
     }"

text \<open>
  What a call of \<open>clone\<close> on the tree \<open>t\<close> in the store \<open>h\<close> has done when it ended with
  \<open>res\<close>, having taken the addresses \<open>us\<close> from the allocator.
\<close>

definition cloned ::
  "'a heap \<Rightarrow> 'a shape \<Rightarrow> (addr option, 'a heap) outcome \<Rightarrow> addr list \<Rightarrow> bool" where
  "cloned h t res us =
     (free h = us @ free (after res)
      \<and> alloc_ok (after res)
      \<and> (\<forall>p. p \<notin> set us \<longrightarrow> cells (after res) p = cells h p)
      \<and> (case res of
            Throw e h' \<Rightarrow> e = bad_alloc
          | Ok x h' \<Rightarrow>
              (\<exists>t'. x = root_of t' \<and> stored (cells h') t' \<and> same_data t t'
                 \<and> distinct (addrs t') \<and> set (addrs t') \<subseteq> set us)))"

section \<open>The invariant of the whole state\<close>

text \<open>
  \<open>sh\<close> names, for every handle, the tree its queue holds (\<open>Null\<close> where there is no
  queue). The allocator's contract holds; every tree is in the store, without sharing
  inside it or with another queue's tree, and satisfies the rank invariants and heap order;
  every queue object points to the root of its tree, counts its nodes and carries the
  comparator \<open>c\<close>.
\<close>

definition world_inv ::
  "('a \<Rightarrow> 'a \<Rightarrow> bool option) \<Rightarrow> ('a \<Rightarrow> 'a \<Rightarrow> bool) \<Rightarrow> 'a world \<Rightarrow> (nat \<Rightarrow> 'a shape) \<Rightarrow> bool"
  where
  "world_inv c R w sh =
     (alloc_ok (mem w)
      \<and> (\<forall>i. stored (cells (mem w)) (sh i) \<and> distinct (addrs (sh i))
             \<and> leftist (sh i) \<and> heap_ordered R (sh i))
      \<and> (\<forall>i j. i \<noteq> j \<longrightarrow> set (addrs (sh i)) \<inter> set (addrs (sh j)) = {})
      \<and> (\<forall>i. queues w i = None \<longrightarrow> sh i = Null)
      \<and> (\<forall>i q. queues w i = Some q \<longrightarrow>
             root q = root_of (sh i) \<and> cnt q = length (addrs (sh i)) \<and> cmp q = c))"

section \<open>The nodes a pointer leads to\<close>

text \<open>The nodes that can be reached from a pointer through \<open>left\<close> and \<open>right\<close> links.\<close>

inductive reach :: "(addr \<rightharpoonup> 'a node) \<Rightarrow> addr option \<Rightarrow> addr \<Rightarrow> bool" for cs where
  at_root: "cs p = Some n \<Longrightarrow> reach cs (Some p) p"
| in_left: "cs p = Some n \<Longrightarrow> reach cs (left n) q \<Longrightarrow> reach cs (Some p) q"
| in_right: "cs p = Some n \<Longrightarrow> reach cs (right n) q \<Longrightarrow> reach cs (Some p) q"

text \<open>
  What C++ asks of a comparator: irreflexive, transitive, and with a transitive
  "neither is less than the other".
\<close>

definition strict_weak_order :: "('a \<Rightarrow> 'a \<Rightarrow> bool) \<Rightarrow> bool" where
  "strict_weak_order lt =
     ((\<forall>x. \<not> lt x x)
      \<and> (\<forall>x y z. lt x y \<longrightarrow> lt y z \<longrightarrow> lt x z)
      \<and> (\<forall>x y z. \<not> lt x y \<longrightarrow> \<not> lt y x \<longrightarrow> \<not> lt y z \<longrightarrow> \<not> lt z y
             \<longrightarrow> \<not> lt x z \<and> \<not> lt z x))"

text \<open>A client that pushes a list of elements, stopping at the first throw.\<close>

fun push_all :: "nat \<Rightarrow> 'a list \<Rightarrow> 'a world \<Rightarrow> (unit, 'a world) outcome option" where
  "push_all this [] w = Some (Ok () w)"
| "push_all this (e # es) w =
     (case push this e w of
        None \<Rightarrow> None
      | Some (Throw x w') \<Rightarrow> Some (Throw x w')
      | Some (Ok _ w1) \<Rightarrow> push_all this es w1)"

text \<open>
  A client that \<open>n\<close> times reads \<open>top()\<close> and then calls \<open>pop()\<close>, and returns what it read,
  in that order.
\<close>

fun pop_all :: "nat \<Rightarrow> nat \<Rightarrow> 'a world \<Rightarrow> ('a list, 'a world) outcome option" where
  "pop_all this 0 w = Some (Ok [] w)"
| "pop_all this (Suc n) w =
     (case top_q this w of
        None \<Rightarrow> None
      | Some (Throw x w') \<Rightarrow> Some (Throw x w')
      | Some (Ok v _) \<Rightarrow>
          (case pop this w of
             None \<Rightarrow> None
           | Some (Throw x w') \<Rightarrow> Some (Throw x w')
           | Some (Ok _ w1) \<Rightarrow>
               (case pop_all this n w1 of
                  None \<Rightarrow> None
                | Some (Throw x w') \<Rightarrow> Some (Throw x w')
                | Some (Ok vs w2) \<Rightarrow> Some (Ok (v # vs) w2))))"

text \<open>Queue 0 after \<^verbatim>\<open>push(5); push(3); push(8); push(1)\<close>.\<close>

definition scenario_world :: "int world" where
  "scenario_world =
     \<lparr>mem = \<lparr>cells = [10 \<mapsto> \<lparr>val = 5, left = Some 11, right = None, dist = 1\<rparr>,
                       11 \<mapsto> \<lparr>val = 3, left = None, right = None, dist = 1\<rparr>,
                       12 \<mapsto> \<lparr>val = 8, left = Some 10, right = Some 13, dist = 2\<rparr>,
                       13 \<mapsto> \<lparr>val = 1, left = None, right = None, dist = 1\<rparr>],
             free = [14, 15]\<rparr>,
      queues = [0 \<mapsto> \<lparr>root = Some 12, cnt = 4, cmp = int_less\<rparr>]\<rparr>"

text \<open>Queue 0 holds 5 and 3, queue 1 holds 10 and 2.\<close>

definition two_queues :: "int world" where
  "two_queues =
     \<lparr>mem = \<lparr>cells = [10 \<mapsto> \<lparr>val = 5, left = Some 11, right = None, dist = 1\<rparr>,
                       11 \<mapsto> \<lparr>val = 3, left = None, right = None, dist = 1\<rparr>,
                       12 \<mapsto> \<lparr>val = 10, left = Some 13, right = None, dist = 1\<rparr>,
                       13 \<mapsto> \<lparr>val = 2, left = None, right = None, dist = 1\<rparr>],
             free = [14, 15]\<rparr>,
      queues = [0 \<mapsto> \<lparr>root = Some 10, cnt = 2, cmp = int_less\<rparr>,
                1 \<mapsto> \<lparr>root = Some 12, cnt = 2, cmp = int_less\<rparr>]\<rparr>"

text \<open>An empty queue 0 and four addresses for the allocator.\<close>

definition fresh_world :: "int world" where
  "fresh_world =
     \<lparr>mem = \<lparr>cells = Map.empty, free = [10, 11, 12, 13]\<rparr>,
      queues = [0 \<mapsto> \<lparr>root = None, cnt = 0, cmp = int_less\<rparr>]\<rparr>"

section \<open>Evaluating the model\<close>

lemmas unfold_ops =
  new_Node_def delete_def store_def npl_def construct_def copy_construct_def copy_def
  destruct_def assign_def size_q_def empty_q_def top_q_def push_def pop_def merge_def start_def

lemmas unfold_rec = meld.simps destroy.simps clone.simps

lemma sentinel_world_reachable:
  "run sentinel_less [Construct 0, Push 0 5, Push 0 1, Push 0 2] (start [10, 11, 12, 13])
     = Some sentinel_world"
  by (simp add: unfold_ops unfold_rec sentinel_world_def sentinel_less_def fun_upd_twist
      eval_nat_numeral)

lemma sentinel_pair_reachable:
  "run sentinel_less [Construct 0, Push 0 1, Construct 1, Push 1 2] (start [10, 11, 12])
     = Some sentinel_pair"
  by (simp add: unfold_ops unfold_rec sentinel_pair_def sentinel_less_def fun_upd_twist)

lemma tight_world_reachable:
  "run int_less [Construct 0, Push 0 5, Push 0 3, Construct 1] (start [10, 11, 12])
     = Some tight_world"
  by (simp add: unfold_ops unfold_rec tight_world_def int_less_def fun_upd_twist
      eval_nat_numeral)

section \<open>A throw inside \<open>meld\<close>\<close>

text \<open>
  \<open>meld\<close> writes to a node only after its recursive call has returned, so the store a
  throw leaves behind is the store the call started from; and the only thing it throws is
  what the comparator threw.
\<close>

lemma meld_throw:
  assumes "meld c a b h = Some r"
  shows "\<forall>e h'. r = Throw e h' \<longrightarrow> h' = h \<and> e = compare_threw"
proof (rule meld.raw_induct
    [where P = "\<lambda>c a b h r. \<forall>e h'. r = Throw e h' \<longrightarrow> h' = h \<and> e = compare_threw",
      OF _ assms], goal_cases)
  case (1 m c a b h r)
  show ?case
    using 1(2) 1(1)
    by (auto split: option.splits bind_splits outcome.splits prod.splits if_splits
        simp: Let_def)
qed

lemma meld_throw_same: "meld c a b h = Some (Throw e h') \<Longrightarrow> h' = h"
  using meld_throw by blast

lemma meld_throw_kind: "meld c a b h = Some (Throw e h') \<Longrightarrow> e = compare_threw"
  using meld_throw by blast

lemma new_then_delete:
  assumes "alloc_ok h" and "new_Node v h = Ok p h1"
  shows "delete (Some p) h1 = h"
proof -
  from assms(2) obtain ps where f: "free h = p # ps"
    and h1: "h1 = h\<lparr>cells := (cells h)(p \<mapsto> \<lparr>val = v, left = None, right = None, dist = 1\<rparr>),
                    free := ps\<rparr>"
    by (auto simp: new_Node_def split: list.splits)
  from assms(1) f have "cells h p = None"
    by (simp add: alloc_ok_def)
  then have "(cells h)(p := None) = cells h"
    by (simp add: fun_upd_idem)
  with f h1 show ?thesis
    by (simp add: delete_def)
qed

lemma new_Node_throw: "new_Node v h = Throw x h' \<Longrightarrow> h' = h \<and> x = bad_alloc"
  by (auto simp: new_Node_def split: list.splits)

lemma push_throw:
  assumes "alloc_ok (mem w)" and "push this e w = Some (Throw x w')"
  shows "w' = w"
proof -
  from assms(2) obtain q where q: "queues w this = Some q"
    by (auto simp: push_def split: bind_splits)
  show ?thesis
  proof (cases "new_Node e (mem w)")
    case (Throw y h')
    with assms(2) q new_Node_throw[OF Throw] show ?thesis
      by (simp add: push_def delete_def)
  next
    case (Ok n h1)
    with assms(2) q obtain h' where m: "meld (cmp q) (root q) (Some n) h1 = Some (Throw x h')"
      and w': "w' = w\<lparr>mem := delete (Some n) h'\<rparr>"
      by (auto simp: push_def split: bind_splits outcome.splits)
    from meld_throw_same[OF m] new_then_delete[OF assms(1) Ok] w' show ?thesis
      by simp
  qed
qed

lemma pop_throw:
  assumes "pop this w = Some (Throw x w')"
  shows "w' = w"
proof (cases "queues w this")
  case None
  with assms show ?thesis
    by (simp add: pop_def empty_q_def)
next
  case (Some q)
  note q = this
  show ?thesis
  proof (cases "cnt q = 0")
    case True
    with assms q show ?thesis
      by (simp add: pop_def empty_q_def)
  next
    case False
    note ne = this
    show ?thesis
    proof (cases "root q")
      case None
      with assms q ne show ?thesis
        by (simp add: pop_def empty_q_def)
    next
      case (Some old)
      note old = this
      show ?thesis
      proof (cases "cells (mem w) old")
        case None
        with assms q ne old show ?thesis
          by (simp add: pop_def empty_q_def)
      next
        case (Some n)
        note n = this
        show ?thesis
        proof (cases "meld (cmp q) (left n) (right n) (mem w)")
          case None
          with assms q ne old n show ?thesis
            by (simp add: pop_def empty_q_def)
        next
          case (Some res)
          show ?thesis
          proof (cases res)
            case (Ok r h1)
            with assms q ne old n Some show ?thesis
              by (cases "cells h1 old") (simp_all add: pop_def empty_q_def)
          next
            case (Throw y h')
            with Some have "h' = mem w"
              by (simp add: meld_throw_same)
            with assms q ne old n Some Throw show ?thesis
              by (simp add: pop_def empty_q_def)
          qed
        qed
      qed
    qed
  qed
qed

lemma merge_throw:
  assumes "merge this other w = Some (Throw x w')"
  shows "w' = w"
proof (cases "this = other")
  case True
  with assms show ?thesis
    by (simp add: merge_def)
next
  case False
  note ne = this
  show ?thesis
  proof (cases "queues w this")
    case None
    with assms ne show ?thesis
      by (simp add: merge_def)
  next
    case (Some q)
    note q = this
    show ?thesis
    proof (cases "queues w other")
      case None
      with assms ne q show ?thesis
        by (simp add: merge_def)
    next
      case (Some ot)
      note ot = this
      show ?thesis
      proof (cases "meld (cmp q) (root q) (root ot) (mem w)")
        case None
        with assms ne q ot show ?thesis
          by (simp add: merge_def)
      next
        case (Some res)
        show ?thesis
        proof (cases res)
          case (Ok r h1)
          with assms ne q ot Some show ?thesis
            by (simp add: merge_def)
        next
          case (Throw y h')
          with Some have "h' = mem w"
            by (simp add: meld_throw_same)
          with assms ne q ot Some Throw show ?thesis
            by (simp add: merge_def)
        qed
      qed
    qed
  qed
qed

text \<open>
  C2. When \<open>push\<close>, \<open>pop\<close> or \<open>merge\<close> throws, the whole state after the call is the state
  before it: every queue object (so \<open>size()\<close>, \<open>top()\<close>, the other queue of a merge), every
  node and link, the set of live nodes and the allocator's free addresses. This holds for
  whatever is thrown, the comparator's exception included: \<open>meld\<close> passes it on as it is
  (\<open>meld_throw_kind\<close>) and the handlers of the three operations rethrow it. The state before
  the call only has to respect the allocator's contract, as every reachable state does.
\<close>

theorem failed_call_restores_state:
  assumes "alloc_ok (mem w)"
  shows "(push this e w = Some (Throw x w') \<longrightarrow> w' = w)
       \<and> (pop this w = Some (Throw x w') \<longrightarrow> w' = w)
       \<and> (merge this other w = Some (Throw x w') \<longrightarrow> w' = w)"
proof (intro conjI impI)
  assume "push this e w = Some (Throw x w')"
  with assms show "w' = w" by (rule push_throw)
next
  assume "pop this w = Some (Throw x w')"
  then show "w' = w" by (rule pop_throw)
next
  assume "merge this other w = Some (Throw x w')"
  then show "w' = w" by (rule merge_throw)
qed

theorem failed_call_restores_state_witness:
  "alloc_ok (mem sentinel_pair)
   \<and> push 0 2 sentinel_pair = Some (Throw compare_threw sentinel_pair)
   \<and> merge 0 1 sentinel_pair = Some (Throw compare_threw sentinel_pair)
   \<and> alloc_ok (mem sentinel_world)
   \<and> pop 0 sentinel_world = Some (Throw compare_threw sentinel_world)"
proof -
  have a: "alloc_ok (mem sentinel_pair)" "alloc_ok (mem sentinel_world)"
    by (simp_all add: alloc_ok_def sentinel_pair_def sentinel_world_def)
  obtain w1 where 1: "push 0 2 sentinel_pair = Some (Throw compare_threw w1)"
    by (simp add: unfold_ops unfold_rec sentinel_pair_def sentinel_less_def)
  obtain w2 where 2: "merge 0 1 sentinel_pair = Some (Throw compare_threw w2)"
    by (simp add: unfold_ops unfold_rec sentinel_pair_def sentinel_less_def)
  obtain w3 where 3: "pop 0 sentinel_world = Some (Throw compare_threw w3)"
    by (simp add: unfold_ops unfold_rec sentinel_world_def sentinel_less_def)
  from failed_call_restores_state[OF a(1), where this = 0 and e = 2 and x = compare_threw and w' = w1] 1
  have "w1 = sentinel_pair" by simp
  moreover from failed_call_restores_state[OF a(1), where this = 0 and other = 1 and x = compare_threw and w' = w2] 2
  have "w2 = sentinel_pair" by simp
  moreover from failed_call_restores_state[OF a(2), where this = 0 and x = compare_threw and w' = w3] 3
  have "w3 = sentinel_world" by simp
  ultimately show ?thesis using a 1 2 3 by simp
qed

lemma clone_throw_kind:
  assumes "clone x h = Some r"
  shows "\<forall>e h'. r = Throw e h' \<longrightarrow> e = bad_alloc"
proof (rule clone.raw_induct
    [where xa = "(x, h)" and y = r
       and P = "\<lambda>x h r. \<forall>e h'. r = Throw e h' \<longrightarrow> e = bad_alloc",
      unfolded prod.case, OF _ assms], goal_cases)
  case (1 cl x h r)
  show ?case
    using 1(2) 1(1)
    by (auto split: option.splits bind_splits outcome.splits simp: Let_def new_Node_def
        split: list.splits)
qed

lemma copy_construct_throw_kind:
  "copy_construct ot h = Some (Throw e h') \<Longrightarrow> e = bad_alloc"
  using clone_throw_kind[of "root ot" h]
  by (auto simp: copy_construct_def split: bind_splits outcome.splits)

lemma top_q_empty:
  "queues w this = Some q \<Longrightarrow> cnt q = 0 \<Longrightarrow> top_q this w = Some (Throw container_is_empty w)"
  by (simp add: top_q_def empty_q_def)

lemma pop_empty:
  "queues w this = Some q \<Longrightarrow> cnt q = 0 \<Longrightarrow> pop this w = Some (Throw container_is_empty w)"
  by (simp add: pop_def empty_q_def)

lemma top_q_nonempty:
  "queues w this = Some q \<Longrightarrow> cnt q \<noteq> 0 \<Longrightarrow> top_q this w \<noteq> Some (Throw e w')"
  by (simp add: top_q_def empty_q_def split: bind_splits)

lemma pop_nonempty:
  assumes "queues w this = Some q" and "cnt q \<noteq> 0"
  shows "pop this w \<noteq> Some (Throw container_is_empty w')"
proof
  assume p: "pop this w = Some (Throw container_is_empty w')"
  show False
  proof (cases "root q")
    case None
    with p assms show ?thesis
      by (simp add: pop_def empty_q_def)
  next
    case (Some old)
    note old = this
    show ?thesis
    proof (cases "cells (mem w) old")
      case None
      with p assms old show ?thesis
        by (simp add: pop_def empty_q_def)
    next
      case (Some n)
      note n = this
      show ?thesis
      proof (cases "meld (cmp q) (left n) (right n) (mem w)")
        case None
        with p assms old n show ?thesis
          by (simp add: pop_def empty_q_def)
      next
        case (Some res)
        show ?thesis
        proof (cases res)
          case (Ok r h1)
          with p assms old n Some show ?thesis
            by (cases "cells h1 old") (simp_all add: pop_def empty_q_def)
        next
          case (Throw y h')
          with Some have "y = compare_threw"
            by (simp add: meld_throw_kind)
          with p assms old n Some Throw show ?thesis
            by (simp add: pop_def empty_q_def)
        qed
      qed
    qed
  qed
qed

lemma push_not_empty_error: "push this e w \<noteq> Some (Throw container_is_empty w')"
proof
  assume p: "push this e w = Some (Throw container_is_empty w')"
  then obtain q where q: "queues w this = Some q"
    by (cases "queues w this") (simp_all add: push_def)
  show False
  proof (cases "new_Node e (mem w)")
    case (Throw y h')
    with p q new_Node_throw[OF Throw] show ?thesis
      by (simp add: push_def)
  next
    case (Ok n h1)
    note n = this
    show ?thesis
    proof (cases "meld (cmp q) (root q) (Some n) h1")
      case None
      with p q n show ?thesis
        by (simp add: push_def)
    next
      case (Some res)
      show ?thesis
      proof (cases res)
        case (Ok r h2)
        with p q n Some show ?thesis
          by (simp add: push_def)
      next
        case (Throw y h')
        with Some have "y = compare_threw"
          by (simp add: meld_throw_kind)
        with p q n Some Throw show ?thesis
          by (simp add: push_def)
      qed
    qed
  qed
qed

lemma merge_not_empty_error: "merge this other w \<noteq> Some (Throw container_is_empty w')"
proof
  assume p: "merge this other w = Some (Throw container_is_empty w')"
  then have ne: "this \<noteq> other"
    by (auto simp: merge_def)
  with p obtain q where q: "queues w this = Some q"
    by (cases "queues w this") (simp_all add: merge_def)
  with p ne obtain ot where ot: "queues w other = Some ot"
    by (cases "queues w other") (simp_all add: merge_def)
  show False
  proof (cases "meld (cmp q) (root q) (root ot) (mem w)")
    case None
    with p ne q ot show ?thesis
      by (simp add: merge_def)
  next
    case (Some res)
    show ?thesis
    proof (cases res)
      case (Ok r h2)
      with p ne q ot Some show ?thesis
        by (simp add: merge_def)
    next
      case (Throw y h')
      with Some have "y = compare_threw"
        by (simp add: meld_throw_kind)
      with p ne q ot Some Throw show ?thesis
        by (simp add: merge_def)
    qed
  qed
qed

lemma copy_not_empty_error: "copy this other w \<noteq> Some (Throw container_is_empty w')"
proof
  assume p: "copy this other w = Some (Throw container_is_empty w')"
  then have f: "queues w this = None"
    by (cases "queues w this") (simp_all add: copy_def)
  with p obtain ot where ot: "queues w other = Some ot"
    by (cases "queues w other") (simp_all add: copy_def)
  show False
  proof (cases "copy_construct ot (mem w)")
    case None
    with p f ot show ?thesis
      by (simp add: copy_def)
  next
    case (Some res)
    show ?thesis
    proof (cases res)
      case (Ok r h2)
      with p f ot Some show ?thesis
        by (simp add: copy_def)
    next
      case (Throw y h')
      with Some have "y = bad_alloc"
        by (simp add: copy_construct_throw_kind)
      with p f ot Some Throw show ?thesis
        by (simp add: copy_def)
    qed
  qed
qed

lemma assign_not_empty_error: "assign this other w \<noteq> Some (Throw container_is_empty w')"
proof
  assume p: "assign this other w = Some (Throw container_is_empty w')"
  then have ne: "this \<noteq> other"
    by (auto simp: assign_def)
  with p obtain q where q: "queues w this = Some q"
    by (cases "queues w this") (simp_all add: assign_def)
  with p ne obtain ot where ot: "queues w other = Some ot"
    by (cases "queues w other") (simp_all add: assign_def)
  show False
  proof (cases "copy_construct ot (mem w)")
    case None
    with p ne q ot show ?thesis
      by (simp add: assign_def)
  next
    case (Some res)
    show ?thesis
    proof (cases res)
      case (Ok tmp h1)
      with p ne q ot Some show ?thesis
        by (cases "destroy (root q) h1") (simp_all add: assign_def Let_def)
    next
      case (Throw y h')
      with Some have "y = bad_alloc"
        by (simp add: copy_construct_throw_kind)
      with p ne q ot Some Throw show ?thesis
        by (simp add: assign_def)
    qed
  qed
qed

lemma destruct_no_throw: "destruct this w \<noteq> Some (Throw e w')"
  by (simp add: destruct_def split: bind_splits)

lemma construct_no_throw: "construct c this w \<noteq> Some (Throw e w')"
  by (simp add: construct_def split: option.splits)

text \<open>
  Where a throw comes from. \<open>meld\<close> throws only when a call of the comparator threw,
  \<open>clone\<close> only when \<^verbatim>\<open>new\<close> threw, that is, when the allocator had nothing left.
\<close>

lemma meld_throw_cause:
  assumes "meld c a b h = Some r"
  shows "\<forall>e h'. r = Throw e h' \<longrightarrow> (\<exists>x y. c x y = None)"
proof (rule meld.raw_induct
    [where P = "\<lambda>c a b h r. \<forall>e h'. r = Throw e h' \<longrightarrow> (\<exists>x y. c x y = None)",
      OF _ assms], goal_cases)
  case (1 m c a b h r)
  show ?case
    using 1(2) 1(1)
    by (auto split: option.splits bind_splits outcome.splits prod.splits if_splits
        simp: Let_def)
qed

lemma meld_throw_comparator: "meld c a b h = Some (Throw e h') \<Longrightarrow> \<exists>x y. c x y = None"
  using meld_throw_cause[of c a b h "Throw e h'"] by simp

lemma clone_throw_cause:
  assumes "clone x h = Some r"
  shows "\<forall>e h'. r = Throw e h' \<longrightarrow> free h' = []"
proof (rule clone.raw_induct
    [where xa = "(x, h)" and y = r
       and P = "\<lambda>x h r. \<forall>e h'. r = Throw e h' \<longrightarrow> free h' = []",
      unfolded prod.case, OF _ assms], goal_cases)
  case (1 cl x h r)
  show ?case
    using 1(2) 1(1)
    by (auto split: option.splits bind_splits outcome.splits simp: Let_def new_Node_def
        split: list.splits)
qed

lemma copy_construct_throw_cause:
  "copy_construct ot h = Some (Throw e h') \<Longrightarrow> e = bad_alloc \<and> free h' = []"
  using clone_throw_cause[of "root ot" h] clone_throw_kind[of "root ot" h]
  by (auto simp: copy_construct_def split: bind_splits outcome.splits)

lemma top_q_throw_only:
  assumes "top_q i w = Some (Throw x w')"
  shows "x = container_is_empty \<and> (\<exists>q. queues w i = Some q \<and> cnt q = 0)"
  using assms by (auto simp: top_q_def empty_q_def split: bind_splits if_splits)

lemma pop_throw_only:
  assumes p: "pop i w = Some (Throw x w')"
  shows "\<exists>q. queues w i = Some q
           \<and> (x = container_is_empty \<and> cnt q = 0
               \<or> x = compare_threw \<and> (\<exists>a b. cmp q a b = None))"
proof -
  from p obtain q where q: "queues w i = Some q"
    by (cases "queues w i") (simp_all add: pop_def empty_q_def)
  show ?thesis
  proof (cases "cnt q = 0")
    case True
    with p q show ?thesis
      by (simp add: pop_def empty_q_def)
  next
    case False
    note ne = this
    show ?thesis
    proof (cases "root q")
      case None
      with p q ne show ?thesis
        by (simp add: pop_def empty_q_def)
    next
      case (Some old)
      note old = this
      show ?thesis
      proof (cases "cells (mem w) old")
        case None
        with p q ne old show ?thesis
          by (simp add: pop_def empty_q_def)
      next
        case (Some n)
        note n = this
        show ?thesis
        proof (cases "meld (cmp q) (left n) (right n) (mem w)")
          case None
          with p q ne old n show ?thesis
            by (simp add: pop_def empty_q_def)
        next
          case (Some res)
          show ?thesis
          proof (cases res)
            case (Ok r h1)
            with p q ne old n Some show ?thesis
              by (cases "cells h1 old") (simp_all add: pop_def empty_q_def)
          next
            case (Throw y h')
            with Some have "y = compare_threw" and "\<exists>a b. cmp q a b = None"
              by (simp_all add: meld_throw_kind meld_throw_comparator)
            moreover from p q ne old n Some Throw have "x = y"
              by (simp add: pop_def empty_q_def)
            ultimately show ?thesis
              using q by simp
          qed
        qed
      qed
    qed
  qed
qed

lemma push_throw_only:
  assumes p: "push i e w = Some (Throw x w')"
  shows "\<exists>q. queues w i = Some q
           \<and> (x = bad_alloc \<and> free (mem w) = []
               \<or> x = compare_threw \<and> (\<exists>a b. cmp q a b = None))"
proof -
  from p obtain q where q: "queues w i = Some q"
    by (cases "queues w i") (simp_all add: push_def)
  show ?thesis
  proof (cases "new_Node e (mem w)")
    case (Throw y h')
    then have "free (mem w) = []" and "y = bad_alloc"
      by (auto simp: new_Node_def split: list.splits)
    moreover from p q Throw have "x = y"
      by (simp add: push_def)
    ultimately show ?thesis
      using q by simp
  next
    case (Ok n h1)
    note n = this
    show ?thesis
    proof (cases "meld (cmp q) (root q) (Some n) h1")
      case None
      with p q n show ?thesis
        by (simp add: push_def)
    next
      case (Some res)
      show ?thesis
      proof (cases res)
        case (Ok r h2)
        with p q n Some show ?thesis
          by (simp add: push_def)
      next
        case (Throw y h')
        with Some have "y = compare_threw" and "\<exists>a b. cmp q a b = None"
          by (simp_all add: meld_throw_kind meld_throw_comparator)
        moreover from p q n Some Throw have "x = y"
          by (simp add: push_def)
        ultimately show ?thesis
          using q by simp
      qed
    qed
  qed
qed

lemma merge_throw_only:
  assumes p: "merge i j w = Some (Throw x w')"
  shows "\<exists>q. queues w i = Some q \<and> x = compare_threw \<and> (\<exists>a b. cmp q a b = None)"
proof -
  from p have ne: "i \<noteq> j"
    by (auto simp: merge_def)
  with p obtain q where q: "queues w i = Some q"
    by (cases "queues w i") (simp_all add: merge_def)
  with p ne obtain ot where ot: "queues w j = Some ot"
    by (cases "queues w j") (simp_all add: merge_def)
  show ?thesis
  proof (cases "meld (cmp q) (root q) (root ot) (mem w)")
    case None
    with p ne q ot show ?thesis
      by (simp add: merge_def)
  next
    case (Some res)
    show ?thesis
    proof (cases res)
      case (Ok r h2)
      with p ne q ot Some show ?thesis
        by (simp add: merge_def)
    next
      case (Throw y h')
      with Some have "y = compare_threw" and "\<exists>a b. cmp q a b = None"
        by (simp_all add: meld_throw_kind meld_throw_comparator)
      moreover from p ne q ot Some Throw have "x = y"
        by (simp add: merge_def)
      ultimately show ?thesis
        using q by simp
    qed
  qed
qed

lemma copy_throw_only:
  assumes p: "copy i j w = Some (Throw x w')"
  shows "x = bad_alloc \<and> free (mem w') = []"
proof -
  from p have f: "queues w i = None"
    by (cases "queues w i") (simp_all add: copy_def)
  with p obtain ot where ot: "queues w j = Some ot"
    by (cases "queues w j") (simp_all add: copy_def)
  show ?thesis
  proof (cases "copy_construct ot (mem w)")
    case None
    with p f ot show ?thesis
      by (simp add: copy_def)
  next
    case (Some res)
    show ?thesis
    proof (cases res)
      case (Ok r h2)
      with p f ot Some show ?thesis
        by (simp add: copy_def)
    next
      case (Throw y h')
      with Some have "y = bad_alloc \<and> free h' = []"
        by (simp add: copy_construct_throw_cause)
      moreover from p f ot Some Throw have "x = y" and "w' = w\<lparr>mem := h'\<rparr>"
        by (simp_all add: copy_def)
      ultimately show ?thesis
        by simp
    qed
  qed
qed

lemma assign_throw_only:
  assumes p: "assign i j w = Some (Throw x w')"
  shows "x = bad_alloc \<and> free (mem w') = []"
proof -
  from p have ne: "i \<noteq> j"
    by (auto simp: assign_def)
  with p obtain q where q: "queues w i = Some q"
    by (cases "queues w i") (simp_all add: assign_def)
  with p ne obtain ot where ot: "queues w j = Some ot"
    by (cases "queues w j") (simp_all add: assign_def)
  show ?thesis
  proof (cases "copy_construct ot (mem w)")
    case None
    with p ne q ot show ?thesis
      by (simp add: assign_def)
  next
    case (Some res)
    show ?thesis
    proof (cases res)
      case (Ok tmp h1)
      with p ne q ot Some show ?thesis
        by (cases "destroy (root q) h1") (simp_all add: assign_def Let_def)
    next
      case (Throw y h')
      with Some have "y = bad_alloc \<and> free h' = []"
        by (simp add: copy_construct_throw_cause)
      moreover from p ne q ot Some Throw have "x = y" and "w' = w\<lparr>mem := h'\<rparr>"
        by (simp_all add: assign_def)
      ultimately show ?thesis
        by simp
    qed
  qed
qed

lemma meld_throw_pair:
  assumes "meld c a b h = Some r"
  shows "\<forall>e h'. r = Throw e h' \<longrightarrow>
           (\<exists>pa pb na nb. cells h pa = Some na \<and> cells h pb = Some nb
              \<and> c (val na) (val nb) = None)"
proof (rule meld.raw_induct
    [where P = "\<lambda>c a b h r. \<forall>e h'. r = Throw e h' \<longrightarrow>
           (\<exists>pa pb na nb. cells h pa = Some na \<and> cells h pb = Some nb
              \<and> c (val na) (val nb) = None)",
      OF _ assms], goal_cases)
  case (1 m c a b h r)
  show ?case
  proof (intro allI impI)
    fix e h' assume r: "r = Throw e h'"
    show "\<exists>pa pb na nb. cells h pa = Some na \<and> cells h pb = Some nb
        \<and> c (val na) (val nb) = None"
    proof (cases a)
      case None
      with 1(2) r show ?thesis
        by simp
    next
      case (Some pa)
      note a = this
      show ?thesis
      proof (cases b)
        case None
        with 1(2) r a show ?thesis
          by simp
      next
        case (Some pb)
        note b = this
        from 1(2) a b obtain na where na: "cells h pa = Some na"
          by (cases "cells h pa") simp_all
        from 1(2) a b na obtain nb where nb: "cells h pb = Some nb"
          by (cases "cells h pb") simp_all
        show ?thesis
        proof (cases "c (val na) (val nb)")
          case None
          with na nb show ?thesis
            by blast
        next
          case (Some sw)
          let ?a = "if sw then pb else pa" and ?b = "if sw then pa else pb"
          let ?n0 = "if sw then nb else na"
          have n0: "cells h ?a = Some ?n0"
            using na nb by simp
          from 1(2) a b na nb Some n0
          obtain res where rec: "m c (right ?n0) (Some ?b) h = Some res"
            by (cases "m c (right ?n0) (Some ?b) h") (auto split: if_splits)
          show ?thesis
          proof (cases res)
            case (Throw y h1)
            with 1(1)[OF rec] show ?thesis
              by simp
          next
            case (Ok nr h1)
            with 1(2) a b na nb Some n0 rec r show ?thesis
              by (auto split: if_splits bind_splits simp: Let_def)
          qed
        qed
      qed
    qed
  qed
qed

lemma meld_throw_values:
  "meld c a b h = Some (Throw e h') \<Longrightarrow>
     \<exists>pa pb na nb. cells h pa = Some na \<and> cells h pb = Some nb \<and> c (val na) (val nb) = None"
  using meld_throw_pair[of c a b h "Throw e h'"] by simp

lemma pop_throw_values:
  assumes p: "pop i w = Some (Throw x w')"
  shows "\<exists>q. queues w i = Some q
           \<and> (x = container_is_empty \<and> cnt q = 0
               \<or> x = compare_threw
                 \<and> (\<exists>pa pb na nb. cells (mem w) pa = Some na \<and> cells (mem w) pb = Some nb
                        \<and> cmp q (val na) (val nb) = None))"
proof -
  from p obtain q where q: "queues w i = Some q"
    by (cases "queues w i") (simp_all add: pop_def empty_q_def)
  show ?thesis
  proof (cases "cnt q = 0")
    case True
    with p q show ?thesis
      by (simp add: pop_def empty_q_def)
  next
    case False
    note ne = this
    show ?thesis
    proof (cases "root q")
      case None
      with p q ne show ?thesis
        by (simp add: pop_def empty_q_def)
    next
      case (Some old)
      note old = this
      show ?thesis
      proof (cases "cells (mem w) old")
        case None
        with p q ne old show ?thesis
          by (simp add: pop_def empty_q_def)
      next
        case (Some n)
        note n = this
        show ?thesis
        proof (cases "meld (cmp q) (left n) (right n) (mem w)")
          case None
          with p q ne old n show ?thesis
            by (simp add: pop_def empty_q_def)
        next
          case (Some res)
          show ?thesis
          proof (cases res)
            case (Ok r h1)
            with p q ne old n Some show ?thesis
              by (cases "cells h1 old") (simp_all add: pop_def empty_q_def)
          next
            case (Throw y h')
            with Some have m: "meld (cmp q) (left n) (right n) (mem w) = Some (Throw y h')"
              by simp
            from meld_throw_kind[OF m] have y: "y = compare_threw" .
            note v = meld_throw_values[OF m]
            from p q ne old n Some Throw have "x = y"
              by (simp add: pop_def empty_q_def)
            with y v q show ?thesis
              by simp
          qed
        qed
      qed
    qed
  qed
qed

lemma merge_throw_values:
  assumes p: "merge i j w = Some (Throw x w')"
  shows "\<exists>q. queues w i = Some q \<and> x = compare_threw
           \<and> (\<exists>pa pb na nb. cells (mem w) pa = Some na \<and> cells (mem w) pb = Some nb
                  \<and> cmp q (val na) (val nb) = None)"
proof -
  from p have ne: "i \<noteq> j"
    by (auto simp: merge_def)
  with p obtain q where q: "queues w i = Some q"
    by (cases "queues w i") (simp_all add: merge_def)
  with p ne obtain ot where ot: "queues w j = Some ot"
    by (cases "queues w j") (simp_all add: merge_def)
  show ?thesis
  proof (cases "meld (cmp q) (root q) (root ot) (mem w)")
    case None
    with p ne q ot show ?thesis
      by (simp add: merge_def)
  next
    case (Some res)
    show ?thesis
    proof (cases res)
      case (Ok r h2)
      with p ne q ot Some show ?thesis
        by (simp add: merge_def)
    next
      case (Throw y h')
      with Some have m: "meld (cmp q) (root q) (root ot) (mem w) = Some (Throw y h')"
        by simp
      from meld_throw_kind[OF m] have y: "y = compare_threw" .
      note v = meld_throw_values[OF m]
      from p ne q ot Some Throw have "x = y"
        by (simp add: merge_def)
      with y v q show ?thesis
        by simp
    qed
  qed
qed

lemma push_throw_values:
  assumes p: "push i e w = Some (Throw x w')"
  shows "\<exists>q. queues w i = Some q
           \<and> (x = bad_alloc \<and> free (mem w) = []
               \<or> x = compare_threw
                 \<and> (\<exists>a b. cmp q a b = None
                        \<and> (a = e \<or> (\<exists>pa na. cells (mem w) pa = Some na \<and> val na = a))
                        \<and> (b = e \<or> (\<exists>pb nb. cells (mem w) pb = Some nb \<and> val nb = b))))"
proof -
  from p obtain q where q: "queues w i = Some q"
    by (cases "queues w i") (simp_all add: push_def)
  show ?thesis
  proof (cases "new_Node e (mem w)")
    case (Throw y h')
    then have "free (mem w) = []" and "y = bad_alloc"
      by (auto simp: new_Node_def split: list.splits)
    moreover from p q Throw have "x = y"
      by (simp add: push_def)
    ultimately show ?thesis
      using q by simp
  next
    case (Ok n h1)
    note n = this
    then have c1: "cells h1 = (cells (mem w))(n \<mapsto> \<lparr>val = e, left = None, right = None, dist = 1\<rparr>)"
      by (auto simp: new_Node_def split: list.splits)
    have known: "\<And>pa na. cells h1 pa = Some na \<Longrightarrow>
        val na = e \<or> (\<exists>pa' na'. cells (mem w) pa' = Some na' \<and> val na' = val na)"
    proof -
      fix pa na assume "cells h1 pa = Some na"
      with c1 have "pa = n \<and> na = \<lparr>val = e, left = None, right = None, dist = 1\<rparr>
          \<or> cells (mem w) pa = Some na"
        by (auto split: if_splits)
      then show "val na = e \<or> (\<exists>pa' na'. cells (mem w) pa' = Some na' \<and> val na' = val na)"
        by auto
    qed
    show ?thesis
    proof (cases "meld (cmp q) (root q) (Some n) h1")
      case None
      with p q n show ?thesis
        by (simp add: push_def)
    next
      case (Some res)
      show ?thesis
      proof (cases res)
        case (Ok r h2)
        with p q n Some show ?thesis
          by (simp add: push_def)
      next
        case (Throw y h')
        with Some have m: "meld (cmp q) (root q) (Some n) h1 = Some (Throw y h')"
          by simp
        from meld_throw_kind[OF m] have y: "y = compare_threw" .
        from meld_throw_values[OF m] obtain pa pb na nb where
          a: "cells h1 pa = Some na" and b: "cells h1 pb = Some nb"
          and t: "cmp q (val na) (val nb) = None"
          by (elim exE conjE)
        from known[OF a] known[OF b] t
        have "\<exists>a b. cmp q a b = None
            \<and> (a = e \<or> (\<exists>pa na. cells (mem w) pa = Some na \<and> val na = a))
            \<and> (b = e \<or> (\<exists>pb nb. cells (mem w) pb = Some nb \<and> val nb = b))"
          by (intro exI[of _ "val na"] exI[of _ "val nb"]) simp
        moreover from p q n Some Throw have "x = y"
          by (simp add: push_def)
        ultimately show ?thesis
          using y q by simp
      qed
    qed
  qed
qed

text \<open>
  C7. \<open>top\<close> and \<open>pop\<close> throw \<open>container_is_empty\<close> when the count is 0, leaving the state as
  it was, and in no other state; no other operation throws it. The first part holds for
  every comparator the queue may carry, one that throws at every call included: the
  comparator is not called. It is also the only exception that starts in the component:
  \<open>top\<close> throws nothing else; whatever else \<open>pop\<close>, \<open>push\<close> or \<open>merge\<close> throws was thrown by
  the queue's comparator, which then answers \<open>None\<close> for two values that are stored in
  nodes of the store (or, in \<open>push\<close>, are the pushed value), or, in \<open>push\<close>, by
  \<^verbatim>\<open>new\<close> with the allocator exhausted; the copy constructor and the assignment throw only
  the \<open>bad_alloc\<close> of a \<^verbatim>\<open>new\<close> that found the allocator exhausted; the default constructor and
  the destructor throw nothing.
\<close>

theorem empty_queue_error:
  assumes "queues w this = Some q"
  shows "(cnt q = 0 \<longrightarrow>
            top_q this w = Some (Throw container_is_empty w)
          \<and> pop this w = Some (Throw container_is_empty w))
       \<and> (cnt q \<noteq> 0 \<longrightarrow>
            (\<forall>w'. top_q this w \<noteq> Some (Throw container_is_empty w'))
          \<and> (\<forall>w'. pop this w \<noteq> Some (Throw container_is_empty w')))
       \<and> (\<forall>i e w'. push i e w \<noteq> Some (Throw container_is_empty w'))
       \<and> (\<forall>i j w'. merge i j w \<noteq> Some (Throw container_is_empty w'))
       \<and> (\<forall>i j w'. copy i j w \<noteq> Some (Throw container_is_empty w'))
       \<and> (\<forall>i j w'. assign i j w \<noteq> Some (Throw container_is_empty w'))
       \<and> (\<forall>i w'. destruct i w \<noteq> Some (Throw container_is_empty w'))
       \<and> (\<forall>c i w'. construct c i w \<noteq> Some (Throw container_is_empty w'))
       \<and> (\<forall>i x w'. top_q i w = Some (Throw x w') \<longrightarrow>
             x = container_is_empty \<and> (\<exists>qi. queues w i = Some qi \<and> cnt qi = 0))
       \<and> (\<forall>i x w'. pop i w = Some (Throw x w') \<longrightarrow>
             (\<exists>qi. queues w i = Some qi
                \<and> (x = container_is_empty \<and> cnt qi = 0
                    \<or> x = compare_threw
                      \<and> (\<exists>pa pb na nb. cells (mem w) pa = Some na \<and> cells (mem w) pb = Some nb
                             \<and> cmp qi (val na) (val nb) = None))))
       \<and> (\<forall>i e x w'. push i e w = Some (Throw x w') \<longrightarrow>
             (\<exists>qi. queues w i = Some qi
                \<and> (x = bad_alloc \<and> free (mem w) = []
                    \<or> x = compare_threw
                      \<and> (\<exists>a b. cmp qi a b = None
                             \<and> (a = e \<or> (\<exists>pa na. cells (mem w) pa = Some na \<and> val na = a))
                             \<and> (b = e \<or> (\<exists>pb nb. cells (mem w) pb = Some nb \<and> val nb = b))))))
       \<and> (\<forall>i j x w'. merge i j w = Some (Throw x w') \<longrightarrow>
             (\<exists>qi. queues w i = Some qi \<and> x = compare_threw
                \<and> (\<exists>pa pb na nb. cells (mem w) pa = Some na \<and> cells (mem w) pb = Some nb
                       \<and> cmp qi (val na) (val nb) = None)))
       \<and> (\<forall>i j x w'. copy i j w = Some (Throw x w') \<longrightarrow> x = bad_alloc \<and> free (mem w') = [])
       \<and> (\<forall>i j x w'. assign i j w = Some (Throw x w') \<longrightarrow> x = bad_alloc \<and> free (mem w') = [])
       \<and> (\<forall>i x w'. destruct i w \<noteq> Some (Throw x w'))
       \<and> (\<forall>c i x w'. construct c i w \<noteq> Some (Throw x w'))"
proof (intro conjI impI allI)
  assume "cnt q = 0"
  with assms show "top_q this w = Some (Throw container_is_empty w)"
    by (rule top_q_empty)
next
  assume "cnt q = 0"
  with assms show "pop this w = Some (Throw container_is_empty w)"
    by (rule pop_empty)
next
  fix w' assume "cnt q \<noteq> 0"
  with assms show "top_q this w \<noteq> Some (Throw container_is_empty w')"
    by (rule top_q_nonempty)
next
  fix w' assume "cnt q \<noteq> 0"
  with assms show "pop this w \<noteq> Some (Throw container_is_empty w')"
    by (rule pop_nonempty)
next
  fix i x w' assume "top_q i w = Some (Throw x w')"
  then show "x = container_is_empty" and "\<exists>qi. queues w i = Some qi \<and> cnt qi = 0"
    using top_q_throw_only[of i w x w'] by simp_all
next
  fix i x w' assume "pop i w = Some (Throw x w')"
  then show "\<exists>qi. queues w i = Some qi
                \<and> (x = container_is_empty \<and> cnt qi = 0
                    \<or> x = compare_threw
                      \<and> (\<exists>pa pb na nb. cells (mem w) pa = Some na \<and> cells (mem w) pb = Some nb
                             \<and> cmp qi (val na) (val nb) = None))"
    by (rule pop_throw_values)
next
  fix i e x w' assume "push i e w = Some (Throw x w')"
  then show "\<exists>qi. queues w i = Some qi
                \<and> (x = bad_alloc \<and> free (mem w) = []
                    \<or> x = compare_threw
                      \<and> (\<exists>a b. cmp qi a b = None
                             \<and> (a = e \<or> (\<exists>pa na. cells (mem w) pa = Some na \<and> val na = a))
                             \<and> (b = e \<or> (\<exists>pb nb. cells (mem w) pb = Some nb \<and> val nb = b))))"
    by (rule push_throw_values)
next
  fix i j x w' assume "merge i j w = Some (Throw x w')"
  then show "\<exists>qi. queues w i = Some qi \<and> x = compare_threw
                \<and> (\<exists>pa pb na nb. cells (mem w) pa = Some na \<and> cells (mem w) pb = Some nb
                       \<and> cmp qi (val na) (val nb) = None)"
    by (rule merge_throw_values)
next
  fix i j x w' assume "copy i j w = Some (Throw x w')"
  then show "x = bad_alloc" and "free (mem w') = []"
    using copy_throw_only[of i j w x w'] by simp_all
next
  fix i j x w' assume "assign i j w = Some (Throw x w')"
  then show "x = bad_alloc" and "free (mem w') = []"
    using assign_throw_only[of i j w x w'] by simp_all
qed (rule push_not_empty_error merge_not_empty_error copy_not_empty_error
    assign_not_empty_error destruct_no_throw construct_no_throw)+

theorem empty_queue_error_witness:
  "queues tight_world 1 = Some \<lparr>root = None, cnt = 0, cmp = int_less\<rparr>
   \<and> top_q 1 tight_world = Some (Throw container_is_empty tight_world)
   \<and> pop 1 tight_world = Some (Throw container_is_empty tight_world)
   \<and> queues tight_world 0 = Some \<lparr>root = Some 10, cnt = 2, cmp = int_less\<rparr>
   \<and> top_q 0 tight_world \<noteq> Some (Throw container_is_empty tight_world)
   \<and> pop 0 tight_world \<noteq> Some (Throw container_is_empty tight_world)
   \<and> (\<exists>w'. assign 1 0 tight_world = Some (Throw bad_alloc w') \<and> free (mem w') = [])
   \<and> (\<exists>w' a b. push 0 2 sentinel_pair = Some (Throw compare_threw w')
          \<and> sentinel_less a b = None)"
proof -
  have 1: "queues tight_world 1 = Some \<lparr>root = None, cnt = 0, cmp = int_less\<rparr>"
    and 0: "queues tight_world 0 = Some \<lparr>root = Some 10, cnt = 2, cmp = int_less\<rparr>"
    by (simp_all add: tight_world_def)
  have s: "queues sentinel_pair 0 = Some \<lparr>root = Some 10, cnt = 1, cmp = sentinel_less\<rparr>"
    by (simp add: sentinel_pair_def)
  note t1 = empty_queue_error[OF 1] and t0 = empty_queue_error[OF 0]
    and ts = empty_queue_error[OF s]
  obtain x1 w1 where a: "assign 1 0 tight_world = Some (Throw x1 w1)"
    by (simp add: unfold_ops unfold_rec tight_world_def int_less_def)
  note t_assign = t1[THEN conjunct2, THEN conjunct2, THEN conjunct2, THEN conjunct2,
      THEN conjunct2, THEN conjunct2, THEN conjunct2, THEN conjunct2, THEN conjunct2,
      THEN conjunct2, THEN conjunct2, THEN conjunct2, THEN conjunct2, THEN conjunct1,
      rule_format]
  note s_push = ts[THEN conjunct2, THEN conjunct2, THEN conjunct2, THEN conjunct2,
      THEN conjunct2, THEN conjunct2, THEN conjunct2, THEN conjunct2, THEN conjunct2,
      THEN conjunct2, THEN conjunct1, rule_format]
  from t_assign[OF a] have a': "x1 = bad_alloc \<and> free (mem w1) = []" .
  obtain x2 w2 where p: "push 0 2 sentinel_pair = Some (Throw x2 w2)"
    by (simp add: unfold_ops unfold_rec sentinel_pair_def sentinel_less_def)
  have "free (mem sentinel_pair) \<noteq> []"
    by (simp add: sentinel_pair_def)
  with s_push[OF p] s have p': "x2 = compare_threw \<and> (\<exists>a b. sentinel_less a b = None)"
    by auto
  from a a' have A: "\<exists>w'. assign 1 0 tight_world = Some (Throw bad_alloc w') \<and> free (mem w') = []"
    by (intro exI[of _ w1]) simp
  from p p' have P: "\<exists>w' a b. push 0 2 sentinel_pair = Some (Throw compare_threw w')
      \<and> sentinel_less a b = None"
    by auto
  from t1[THEN conjunct1] t0[THEN conjunct2, THEN conjunct1] 0 1 A P show ?thesis
    by simp
qed

text \<open>
  C9. \<open>merge\<close> called with the receiver's own handle returns at once with the state as it
  was. Nothing is read before the test, so this holds in every state, whatever the queue
  holds and whatever its comparator would do if called.
\<close>

theorem self_merge_is_noop: "merge this this w = Some (Ok () w)"
  by (simp add: merge_def)

text \<open>
  C10. \<open>operator=\<close> called with the receiver's own handle returns at once with the state as
  it was: no queue object, no node and no free address has changed, so nothing was cloned
  or allocated.
\<close>

theorem self_assign_is_noop: "assign this this w = Some (Ok () w)"
  by (simp add: assign_def)

text \<open>
  C8. \<open>clone\<close> has no handler. In \<open>tight_world\<close> the allocator has one address left and queue
  0 holds two nodes: assigning queue 0 to queue 1 allocates the copy of the root at address
  12, then \<^verbatim>\<open>new\<close> throws for the copy of its child. Both queue objects are as before, but
  the node at 12 is still live, no queue reaches it and the allocator does not have it
  back.
\<close>

theorem clone_failure_leaks_node:
  "assign 1 0 tight_world =
     Some (Throw bad_alloc
       (tight_world\<lparr>mem :=
          \<lparr>cells = (cells (mem tight_world))
                     (12 \<mapsto> \<lparr>val = 5, left = None, right = None, dist = 1\<rparr>),
           free = []\<rparr>\<rparr>))"
  by (simp add: unfold_ops unfold_rec tight_world_def int_less_def)

lemma root_of_None [simp]: "(root_of t = None) = (t = Null)"
  by (cases t) simp_all

lemma stored_frame:
  "stored cs t \<Longrightarrow> (\<forall>p \<in> set (addrs t). cs' p = cs p) \<Longrightarrow> stored cs' t"
  by (induction t) auto

lemma stored_live: "stored cs t \<Longrightarrow> p \<in> set (addrs t) \<Longrightarrow> cs p \<noteq> None"
  by (induction t) auto

lemma npl_stored: "stored (cells h) t \<Longrightarrow> npl h (root_of t) = Some (rk t)"
  by (cases t) (simp_all add: npl_def)

lemma meld_Null_left: "meld c None b h = Some (Ok b h)"
  by (subst meld.simps) simp

lemma meld_Null_right: "meld c a None h = Some (Ok a h)"
  by (subst meld.simps) (simp split: option.splits)

lemma meld_step:
  assumes "cells h pa = Some na" and "cells h pb = Some nb"
  shows "meld c (Some pa) (Some pb) h =
     (case c (val na) (val nb) of
        None \<Rightarrow> Some (Throw compare_threw h)
      | Some sw \<Rightarrow>
          (case meld c (right (if sw then nb else na)) (Some (if sw then pa else pb)) h of
             None \<Rightarrow> None
           | Some (Throw e h') \<Rightarrow> Some (Throw e h')
           | Some (Ok nr h1) \<Rightarrow> finish (if sw then pb else pa) nr h1))"
  using assms
  by (subst meld.simps) (simp add: finish_def split: option.splits outcome.splits bind_splits)

lemma finish_stored:
  assumes p: "cells h1 p = Some \<lparr>val = v, left = root_of l, right = x, dist = d\<rparr>"
    and l: "stored (cells h1) l" and nr: "stored (cells h1) nr"
    and fresh: "p \<notin> set (addrs l)" "p \<notin> set (addrs nr)"
  shows "\<exists>h'. finish p (root_of nr) h1 = Some (Ok (Some p) h')
           \<and> stored (cells h') (relink p v l nr)
           \<and> free h' = free h1
           \<and> (\<forall>q. q \<noteq> p \<longrightarrow> cells h' q = cells h1 q)"
proof -
  let ?n2 = "\<lparr>val = v, left = root_of l, right = root_of nr, dist = d\<rparr>"
  let ?h2 = "store p ?n2 h1"
  have l2: "stored (cells ?h2) l" and nr2: "stored (cells ?h2) nr"
    using l nr fresh by (auto intro: stored_frame simp: store_def)
  have dl: "npl ?h2 (root_of l) = Some (rk l)" and dr: "npl ?h2 (root_of nr) = Some (rk nr)"
    using l2 nr2 by (simp_all add: npl_stored)
  show ?thesis
  proof (cases "rk l < rk nr")
    case True
    let ?n3 = "\<lparr>val = v, left = root_of nr, right = root_of l, dist = d\<rparr>"
    let ?h3 = "store p ?n3 ?h2"
    have l3: "stored (cells ?h3) l" and nr3: "stored (cells ?h3) nr"
      using l nr fresh by (auto intro: stored_frame simp: store_def)
    have d3: "npl ?h3 (root_of l) = Some (rk l)"
      using l3 by (rule npl_stored)
    let ?h' = "store p (?n3\<lparr>dist := rk l + 1\<rparr>) ?h3"
    have "finish p (root_of nr) h1 = Some (Ok (Some p) ?h')"
      using p dl dr d3 True by (simp add: finish_def store_def)
    moreover have "stored (cells ?h') (relink p v l nr)"
      using True l nr fresh by (auto intro: stored_frame simp: store_def relink_def)
    moreover have "free ?h' = free h1" and "\<forall>q. q \<noteq> p \<longrightarrow> cells ?h' q = cells h1 q"
      by (simp_all add: store_def)
    ultimately show ?thesis
      by (intro exI conjI) assumption+
  next
    case False
    let ?h' = "store p (?n2\<lparr>dist := rk nr + 1\<rparr>) ?h2"
    have "finish p (root_of nr) h1 = Some (Ok (Some p) ?h')"
      using p dl dr False by (simp add: finish_def store_def)
    moreover have "stored (cells ?h') (relink p v l nr)"
      using False l nr fresh by (auto intro: stored_frame simp: store_def relink_def)
    moreover have "free ?h' = free h1" and "\<forall>q. q \<noteq> p \<longrightarrow> cells ?h' q = cells h1 q"
      by (simp_all add: store_def)
    ultimately show ?thesis
      by (intro exI conjI) assumption+
  qed
qed

lemma root_of_relink [simp]: "root_of (relink p v l nr) = Some p"
  by (simp add: relink_def)

lemma addrs_relink [simp]:
  "mset (addrs (relink p v l nr)) = {#p#} + mset (addrs l) + mset (addrs nr)"
  by (simp add: relink_def)

lemma elems_relink [simp]: "elems (relink p v l nr) = {#v#} + elems l + elems nr"
  by (simp add: relink_def)

lemma leftist_relink: "leftist l \<Longrightarrow> leftist nr \<Longrightarrow> leftist (relink p v l nr)"
  by (simp add: relink_def)

lemma heap_ordered_relink:
  "heap_ordered R l \<Longrightarrow> heap_ordered R nr \<Longrightarrow> (\<forall>x \<in># elems l + elems nr. R v x)
     \<Longrightarrow> heap_ordered R (relink p v l nr)"
  by (auto simp: relink_def)

lemma meld_sh_addrs:
  "meld_sh c a b = Some t \<Longrightarrow> mset (addrs t) = mset (addrs a) + mset (addrs b)"
proof (induction c a b arbitrary: t rule: meld_sh.induct)
  case (3 c pa va da la ra pb vb db lb rb)
  from "3.prems" obtain sw where sw: "c va vb = Some sw"
    by (auto split: option.splits)
  show ?case
  proof (cases sw)
    case True
    with "3.prems" sw obtain nr where nr: "meld_sh c rb (Cell pa va da la ra) = Some nr"
      and t: "t = relink pb vb lb nr"
      by auto
    from "3.IH"(1)[OF sw True nr] t show ?thesis
      by simp
  next
    case False
    with "3.prems" sw obtain nr where nr: "meld_sh c ra (Cell pb vb db lb rb) = Some nr"
      and t: "t = relink pa va la nr"
      by auto
    from "3.IH"(2)[OF sw False nr] t show ?thesis
      by simp
  qed
qed simp_all

lemma meld_sh_elems:
  "meld_sh c a b = Some t \<Longrightarrow> elems t = elems a + elems b"
proof (induction c a b arbitrary: t rule: meld_sh.induct)
  case (3 c pa va da la ra pb vb db lb rb)
  from "3.prems" obtain sw where sw: "c va vb = Some sw"
    by (auto split: option.splits)
  show ?case
  proof (cases sw)
    case True
    with "3.prems" sw obtain nr where nr: "meld_sh c rb (Cell pa va da la ra) = Some nr"
      and t: "t = relink pb vb lb nr"
      by auto
    from "3.IH"(1)[OF sw True nr] t show ?thesis
      by simp
  next
    case False
    with "3.prems" sw obtain nr where nr: "meld_sh c ra (Cell pb vb db lb rb) = Some nr"
      and t: "t = relink pa va la nr"
      by auto
    from "3.IH"(2)[OF sw False nr] t show ?thesis
      by simp
  qed
qed simp_all

lemma meld_sh_leftist:
  "meld_sh c a b = Some t \<Longrightarrow> leftist a \<Longrightarrow> leftist b \<Longrightarrow> leftist t"
proof (induction c a b arbitrary: t rule: meld_sh.induct)
  case (3 c pa va da la ra pb vb db lb rb)
  from "3.prems" obtain sw where sw: "c va vb = Some sw"
    by (auto split: option.splits)
  show ?case
  proof (cases sw)
    case True
    with "3.prems" sw obtain nr where nr: "meld_sh c rb (Cell pa va da la ra) = Some nr"
      and t: "t = relink pb vb lb nr"
      by auto
    from "3.IH"(1)[OF sw True nr] "3.prems" t show ?thesis
      by (simp add: leftist_relink)
  next
    case False
    with "3.prems" sw obtain nr where nr: "meld_sh c ra (Cell pb vb db lb rb) = Some nr"
      and t: "t = relink pa va la nr"
      by auto
    from "3.IH"(2)[OF sw False nr] "3.prems" t show ?thesis
      by (simp add: leftist_relink)
  qed
qed simp_all

lemma heap_ordered_top:
  assumes "suits c R" and "heap_ordered R t" and "t = Cell p v d l r" and "R u v"
  shows "\<forall>x \<in># elems t. R u x"
proof -
  from assms(1) have tr: "\<And>x y z. R x y \<Longrightarrow> R y z \<Longrightarrow> R x z"
    unfolding suits_def by blast
  from assms(2,3) have "\<forall>x \<in># elems l + elems r. R v x"
    by simp
  with tr[OF assms(4)] have "\<forall>x \<in># elems l + elems r. R u x"
    by blast
  with assms(3,4) show ?thesis
    by auto
qed

lemma meld_sh_ordered:
  "suits c R \<Longrightarrow> meld_sh c a b = Some t \<Longrightarrow> heap_ordered R a \<Longrightarrow> heap_ordered R b
     \<Longrightarrow> heap_ordered R t"
proof (induction c a b arbitrary: t rule: meld_sh.induct)
  case (3 c pa va da la ra pb vb db lb rb)
  let ?a = "Cell pa va da la ra" and ?b = "Cell pb vb db lb rb"
  note su = "3.prems"(1) and m = "3.prems"(2) and oa = "3.prems"(3) and ob = "3.prems"(4)
  from m obtain sw where sw: "c va vb = Some sw"
    by (auto split: option.splits)
  show ?case
  proof (cases sw)
    case True
    with m sw obtain nr where nr: "meld_sh c rb ?a = Some nr"
      and t: "t = relink pb vb lb nr"
      by auto
    from ob have orb: "heap_ordered R rb" and olb: "heap_ordered R lb"
      and below: "\<forall>x \<in># elems lb + elems rb. R vb x"
      by simp_all
    have onr: "heap_ordered R nr"
      using "3.IH"(1)[OF sw True su nr orb oa] .
    from su sw True have "R vb va"
      by (simp add: suits_def)
    with heap_ordered_top[OF su oa refl] have "\<forall>x \<in># elems ?a. R vb x"
      by blast
    with below meld_sh_elems[OF nr] have "\<forall>x \<in># elems lb + elems nr. R vb x"
      by auto
    with olb onr t show ?thesis
      by (simp add: heap_ordered_relink)
  next
    case False
    with m sw obtain nr where nr: "meld_sh c ra ?b = Some nr"
      and t: "t = relink pa va la nr"
      by auto
    from oa have ora: "heap_ordered R ra" and ola: "heap_ordered R la"
      and below: "\<forall>x \<in># elems la + elems ra. R va x"
      by simp_all
    have onr: "heap_ordered R nr"
      using "3.IH"(2)[OF sw False su nr ora ob] .
    from su sw False have "R va vb"
      by (simp add: suits_def)
    with heap_ordered_top[OF su ob refl] have "\<forall>x \<in># elems ?b. R va x"
      by blast
    with below meld_sh_elems[OF nr] have "\<forall>x \<in># elems la + elems nr. R va x"
      by auto
    with ola onr t show ?thesis
      by (simp add: heap_ordered_relink)
  qed
qed simp_all

lemma meld_sh_total:
  "(\<forall>x y. c x y \<noteq> None) \<Longrightarrow> meld_sh c a b \<noteq> None"
proof (induction c a b rule: meld_sh.induct)
  case (3 c pa va da la ra pb vb db lb rb)
  from "3.prems" obtain sw where sw: "c va vb = Some sw"
    by blast
  show ?case
  proof (cases sw)
    case True
    with "3.IH"(1)[OF sw True "3.prems"] sw show ?thesis
      by simp
  next
    case False
    with "3.IH"(2)[OF sw False "3.prems"] sw show ?thesis
      by simp
  qed
qed simp_all

text \<open>
  \<open>meld\<close> on two separate trees in the store does what \<open>meld_sh\<close> does on the trees: it
  throws when the comparator does, with the store as it was, and otherwise returns the
  root of the melded tree, which the new store holds. Nodes outside the two trees and the
  allocator are not touched.
\<close>

lemma meld_refines:
  "stored (cells h) a \<Longrightarrow> stored (cells h) b \<Longrightarrow> distinct (addrs a @ addrs b) \<Longrightarrow>
     (case meld_sh c a b of
        None \<Rightarrow> meld c (root_of a) (root_of b) h = Some (Throw compare_threw h)
      | Some t \<Rightarrow>
          (\<exists>h'. meld c (root_of a) (root_of b) h = Some (Ok (root_of t) h')
             \<and> stored (cells h') t
             \<and> free h' = free h
             \<and> (\<forall>p. p \<notin> set (addrs a) \<union> set (addrs b) \<longrightarrow> cells h' p = cells h p)))"
proof (induction c a b arbitrary: h rule: meld_sh.induct)
  case (1 c b)
  then show ?case
    by (simp add: meld_Null_left)
next
  case (2 c pa va da la ra)
  then show ?case
    by (simp add: meld_Null_right)
next
  case (3 c pa va da la ra pb vb db lb rb)
  let ?a = "Cell pa va da la ra" and ?b = "Cell pb vb db lb rb"
  note sa = "3.prems"(1) and sb = "3.prems"(2) and di = "3.prems"(3)
  let ?na = "\<lparr>val = va, left = root_of la, right = root_of ra, dist = da\<rparr>"
  let ?nb = "\<lparr>val = vb, left = root_of lb, right = root_of rb, dist = db\<rparr>"
  from sa sb have ca: "cells h pa = Some ?na" and cb: "cells h pb = Some ?nb"
    by simp_all
  note step = meld_step[OF ca cb, of c]
  show ?case
  proof (cases "c va vb")
    case None
    with step show ?thesis
      by simp
  next
    case (Some sw)
    show ?thesis
    proof (cases sw)
      case True
      from sb have srb: "stored (cells h) rb" and slb: "stored (cells h) lb"
        by simp_all
      from di have d1: "distinct (addrs rb @ addrs ?a)"
        by auto
      note IH = "3.IH"(1)[OF Some True srb sa d1]
      show ?thesis
      proof (cases "meld_sh c rb ?a")
        case None
        with IH step Some True show ?thesis
          by simp
      next
        case (Some nr)
        with IH obtain h1 where m1: "meld c (root_of rb) (root_of ?a) h = Some (Ok (root_of nr) h1)"
          and s1: "stored (cells h1) nr" and f1: "free h1 = free h"
          and fr1: "\<forall>p. p \<notin> set (addrs rb) \<union> set (addrs ?a) \<longrightarrow> cells h1 p = cells h p"
          by auto
        from di have pb: "pb \<notin> set (addrs rb) \<union> set (addrs ?a)"
          and lb: "set (addrs lb) \<inter> (set (addrs rb) \<union> set (addrs ?a)) = {}"
          and pblb: "pb \<notin> set (addrs lb)"
          by auto
        from pb fr1 cb have c1: "cells h1 pb = Some ?nb"
          by simp
        from lb fr1 have "\<forall>p \<in> set (addrs lb). cells h1 p = cells h p"
          by blast
        with slb have sl1: "stored (cells h1) lb"
          by (blast intro: stored_frame)
        from meld_sh_addrs[OF Some] have nrset: "set (addrs nr) = set (addrs rb) \<union> set (addrs ?a)"
          by (metis set_mset_mset set_mset_union)
        with pb have pbnr: "pb \<notin> set (addrs nr)"
          by simp
        from finish_stored[OF c1 sl1 s1 pblb pbnr] obtain h' where
          fin: "finish pb (root_of nr) h1 = Some (Ok (Some pb) h')"
          and s': "stored (cells h') (relink pb vb lb nr)" and f': "free h' = free h1"
          and fr': "\<forall>q. q \<noteq> pb \<longrightarrow> cells h' q = cells h1 q"
          by blast
        have "meld c (root_of ?a) (root_of ?b) h = Some (Ok (root_of (relink pb vb lb nr)) h')"
          using step \<open>c va vb = Some sw\<close> True m1 fin by simp
        moreover have "\<forall>p. p \<notin> set (addrs ?a) \<union> set (addrs ?b) \<longrightarrow> cells h' p = cells h p"
          using fr' fr1 by auto
        ultimately show ?thesis
          using \<open>c va vb = Some sw\<close> True Some s' f' f1 by simp
      qed
    next
      case False
      from sa have sra: "stored (cells h) ra" and sla: "stored (cells h) la"
        by simp_all
      from di have d1: "distinct (addrs ra @ addrs ?b)"
        by auto
      note IH = "3.IH"(2)[OF Some False sra sb d1]
      show ?thesis
      proof (cases "meld_sh c ra ?b")
        case None
        with IH step Some False show ?thesis
          by simp
      next
        case (Some nr)
        with IH obtain h1 where m1: "meld c (root_of ra) (root_of ?b) h = Some (Ok (root_of nr) h1)"
          and s1: "stored (cells h1) nr" and f1: "free h1 = free h"
          and fr1: "\<forall>p. p \<notin> set (addrs ra) \<union> set (addrs ?b) \<longrightarrow> cells h1 p = cells h p"
          by auto
        from di have pa: "pa \<notin> set (addrs ra) \<union> set (addrs ?b)"
          and la: "set (addrs la) \<inter> (set (addrs ra) \<union> set (addrs ?b)) = {}"
          and pala: "pa \<notin> set (addrs la)"
          by auto
        from pa fr1 ca have c1: "cells h1 pa = Some ?na"
          by simp
        from la fr1 have "\<forall>p \<in> set (addrs la). cells h1 p = cells h p"
          by blast
        with sla have sl1: "stored (cells h1) la"
          by (blast intro: stored_frame)
        from meld_sh_addrs[OF Some] have nrset: "set (addrs nr) = set (addrs ra) \<union> set (addrs ?b)"
          by (metis set_mset_mset set_mset_union)
        with pa have panr: "pa \<notin> set (addrs nr)"
          by simp
        from finish_stored[OF c1 sl1 s1 pala panr] obtain h' where
          fin: "finish pa (root_of nr) h1 = Some (Ok (Some pa) h')"
          and s': "stored (cells h') (relink pa va la nr)" and f': "free h' = free h1"
          and fr': "\<forall>q. q \<noteq> pa \<longrightarrow> cells h' q = cells h1 q"
          by blast
        have "meld c (root_of ?a) (root_of ?b) h = Some (Ok (root_of (relink pa va la nr)) h')"
          using step \<open>c va vb = Some sw\<close> False m1 fin by simp
        moreover have "\<forall>p. p \<notin> set (addrs ?a) \<union> set (addrs ?b) \<longrightarrow> cells h' p = cells h p"
          using fr' fr1 by auto
        ultimately show ?thesis
          using \<open>c va vb = Some sw\<close> False Some s' f' f1 by simp
      qed
    qed
  qed
qed

section \<open>\<open>destroy\<close> and \<open>clone\<close> on a tree in the store\<close>

lemma destroy_Null: "destroy None h = Some h"
  by (subst destroy.simps) simp

lemma destroy_step:
  "cells h p = Some n \<Longrightarrow>
   destroy (Some p) h =
     do {
       h1 \<leftarrow> destroy (left n) h;
       n1 \<leftarrow> cells h1 p;
       h2 \<leftarrow> destroy (right n1) h1;
       _ \<leftarrow> cells h2 p;
       Some (delete (Some p) h2)
     }"
  by (subst destroy.simps) simp

text \<open>
  \<open>destroy\<close> of a tree returns, deletes exactly the nodes of the tree and hands their
  addresses back to the allocator.
\<close>

lemma destroy_stored:
  "stored (cells h) t \<Longrightarrow> distinct (addrs t) \<Longrightarrow>
     \<exists>h' us. destroy (root_of t) h = Some h'
        \<and> (\<forall>p. p \<notin> set (addrs t) \<longrightarrow> cells h' p = cells h p)
        \<and> (\<forall>p \<in> set (addrs t). cells h' p = None)
        \<and> free h' = us @ free h \<and> set us = set (addrs t) \<and> distinct us"
proof (induction t arbitrary: h)
  case Null
  then show ?case
    by (simp add: destroy_Null)
next
  case (Cell p v d l r)
  let ?n = "\<lparr>val = v, left = root_of l, right = root_of r, dist = d\<rparr>"
  from Cell.prems have cp: "cells h p = Some ?n" and sl: "stored (cells h) l"
    and sr: "stored (cells h) r"
    by simp_all
  from Cell.prems(2) have dl: "distinct (addrs l)" and dr: "distinct (addrs r)"
    and pl: "p \<notin> set (addrs l)" and pr: "p \<notin> set (addrs r)"
    and lr: "set (addrs l) \<inter> set (addrs r) = {}"
    by auto
  from Cell.IH(1)[OF sl dl] obtain h1 us1 where d1: "destroy (root_of l) h = Some h1"
    and k1: "\<forall>q. q \<notin> set (addrs l) \<longrightarrow> cells h1 q = cells h q"
    and g1: "\<forall>q \<in> set (addrs l). cells h1 q = None"
    and f1: "free h1 = us1 @ free h" and u1: "set us1 = set (addrs l)" "distinct us1"
    by blast
  from k1 pl cp have cp1: "cells h1 p = Some ?n"
    by simp
  from k1 lr have "\<forall>q \<in> set (addrs r). cells h1 q = cells h q"
    by blast
  with sr have sr1: "stored (cells h1) r"
    by (blast intro: stored_frame)
  from Cell.IH(2)[OF sr1 dr] obtain h2 us2 where d2: "destroy (root_of r) h1 = Some h2"
    and k2: "\<forall>q. q \<notin> set (addrs r) \<longrightarrow> cells h2 q = cells h1 q"
    and g2: "\<forall>q \<in> set (addrs r). cells h2 q = None"
    and f2: "free h2 = us2 @ free h1" and u2: "set us2 = set (addrs r)" "distinct us2"
    by blast
  from k2 pr cp1 have cp2: "cells h2 p = Some ?n"
    by simp
  let ?h' = "delete (Some p) h2"
  have "destroy (root_of (Cell p v d l r)) h = Some ?h'"
    using destroy_step[OF cp] d1 cp1 d2 cp2 by simp
  moreover have "\<forall>q. q \<notin> set (addrs (Cell p v d l r)) \<longrightarrow> cells ?h' q = cells h q"
    using k1 k2 by (simp add: delete_def)
  moreover have "\<forall>q \<in> set (addrs (Cell p v d l r)). cells ?h' q = None"
    using g1 g2 k2 lr by (auto simp: delete_def)
  moreover have "free ?h' = (p # us2 @ us1) @ free h"
    using f1 f2 by (simp add: delete_def)
  moreover have "set (p # us2 @ us1) = set (addrs (Cell p v d l r))"
    using u1 u2 by auto
  moreover have "distinct (p # us2 @ us1)"
    using u1 u2 pl pr lr by auto
  ultimately show ?case
    by blast
qed

lemma destroy_alloc_ok:
  assumes "alloc_ok h" and "destroy (root_of t) h = Some h'"
    and "\<forall>p. p \<notin> set (addrs t) \<longrightarrow> cells h' p = cells h p"
    and "\<forall>p \<in> set (addrs t). cells h' p = None"
    and "free h' = us @ free h" and "set us = set (addrs t)" and "distinct us"
    and "stored (cells h) t"
  shows "alloc_ok h'"
proof -
  have "set us \<inter> set (free h) = {}"
  proof -
    have "\<forall>p \<in> set (addrs t). p \<notin> set (free h)"
      using assms(1,8) stored_live by (fastforce simp: alloc_ok_def)
    with assms(6) show ?thesis
      by blast
  qed
  with assms(1,5,7) have "distinct (free h')"
    by (simp add: alloc_ok_def)
  moreover have "\<forall>p \<in> set (free h'). cells h' p = None"
    using assms(1,3,4,5,6) by (auto simp: alloc_ok_def)
  ultimately show ?thesis
    by (simp add: alloc_ok_def)
qed

lemma clone_Null: "clone None h = Some (Ok None h)"
  by (subst clone.simps) simp

lemma clone_step_throw:
  "cells h p = Some nx \<Longrightarrow> free h = [] \<Longrightarrow> clone (Some p) h = Some (Throw bad_alloc h)"
  by (subst clone.simps) (simp add: new_Node_def)

lemma clone_step:
  assumes "cells h p = Some nx" and "new_Node (val nx) h = Ok n h1"
    and "cells h1 p = Some nx1" and "cells h1 n = Some n1"
  shows "clone (Some p) h = clone_rest p n (store n (n1\<lparr>dist := dist nx1\<rparr>) h1)"
  using assms
  by (subst clone.simps)
    (simp only: assms option.case Option.bind.bind_lunit outcome.case clone_rest_def Let_def)

lemma alloc_ok_store:
  "alloc_ok h \<Longrightarrow> p \<notin> set (free h) \<Longrightarrow> alloc_ok (store p n h)"
  by (auto simp: alloc_ok_def store_def)

lemma alloc_ok_live: "alloc_ok h \<Longrightarrow> cells h p \<noteq> None \<Longrightarrow> p \<notin> set (free h)"
  by (auto simp: alloc_ok_def)

text \<open>
  \<open>clone\<close> of a tree in the store returns or throws \<open>bad_alloc\<close>. Either way it has only
  written to addresses \<open>us\<close> it took from the allocator. When it returns, the store holds a
  tree with the same values and ranks at those addresses.
\<close>

lemma clone_stored:
  "alloc_ok h \<Longrightarrow> stored (cells h) t \<Longrightarrow>
     \<exists>res us. clone (root_of t) h = Some res \<and> cloned h t res us"
proof (induction t arbitrary: h)
  case Null
  have "clone (root_of Null) h = Some (Ok None h)"
    by (simp add: clone_Null)
  moreover have "free h = [] @ free (after (Ok None h))"
    by simp
  moreover have "\<exists>t'. (None::addr option) = root_of t' \<and> stored (cells h) t' \<and> same_data Null t'
      \<and> distinct (addrs t') \<and> set (addrs t') \<subseteq> set []"
    by (rule exI[of _ Null]) simp
  ultimately show ?case
    using Null.prems(1) by (intro exI[of _ "Ok None h"] exI[of _ "[]"]) (simp add: cloned_def)
next
  case (Cell p v d l r)
  note ok = Cell.prems(1) and st = Cell.prems(2)
  let ?t = "Cell p v d l r"
  let ?nx = "\<lparr>val = v, left = root_of l, right = root_of r, dist = d\<rparr>"
  from st have cp: "cells h p = Some ?nx" and sl: "stored (cells h) l"
    and sr: "stored (cells h) r"
    by simp_all
  show ?case
  proof (cases "free h")
    case Nil
    have "clone (root_of ?t) h = Some (Throw bad_alloc h)"
      using clone_step_throw[OF cp Nil] by simp
    moreover have "free h = [] @ free (after (Throw bad_alloc h))"
      by simp
    ultimately show ?thesis
      using ok by (intro exI[of _ "Throw bad_alloc h"] exI[of _ "[]"]) (simp add: cloned_def)
  next
    case (Cons n fs)
    from ok Cons have nfree: "cells h n = None" and nfs: "n \<notin> set fs" and dfs: "distinct fs"
      and fsfree: "\<forall>q \<in> set fs. cells h q = None"
      by (simp_all add: alloc_ok_def)
    from nfree cp have np: "n \<noteq> p"
      by auto
    let ?n0 = "\<lparr>val = v, left = None, right = None, dist = 1\<rparr>"
    let ?h1 = "h\<lparr>cells := (cells h)(n \<mapsto> ?n0), free := fs\<rparr>"
    have new: "new_Node (val ?nx) h = Ok n ?h1"
      using Cons by (simp add: new_Node_def)
    let ?n2 = "\<lparr>val = v, left = None, right = None, dist = d\<rparr>"
    let ?h2 = "store n ?n2 ?h1"
    have step: "clone (Some p) h = clone_rest p n ?h2"
      using clone_step[OF cp new, of ?nx ?n0] np cp by simp
    have ok2: "alloc_ok ?h2"
      using dfs fsfree nfs by (auto simp: alloc_ok_def store_def)
    have same2: "\<forall>q. q \<noteq> n \<longrightarrow> cells ?h2 q = cells h q"
      by (simp add: store_def)
    have f2: "free ?h2 = fs"
      by (simp add: store_def)
    have cn2: "cells ?h2 n = Some ?n2"
      by (simp add: store_def)
    have live: "\<And>q. q \<in> set (addrs ?t) \<Longrightarrow> cells h q \<noteq> None"
      by (rule stored_live[OF st])
    have nt: "n \<notin> set (addrs ?t)"
      using live[of n] nfree by auto
    have "\<forall>q \<in> set (addrs ?t). cells ?h2 q = cells h q"
      using nt by (auto simp: store_def)
    with st have st2: "stored (cells ?h2) ?t"
      by (rule stored_frame)
    then have cp2: "cells ?h2 p = Some ?nx" and sl2: "stored (cells ?h2) l"
      and sr2: "stored (cells ?h2) r"
      by simp_all
    from Cell.IH(1)[OF ok2 sl2] obtain resl usl where cl: "clone (root_of l) ?h2 = Some resl"
      and cloned_l: "cloned ?h2 l resl usl"
      by (elim exE conjE)
    from cloned_l have fl: "free ?h2 = usl @ free (after resl)"
      and okl: "alloc_ok (after resl)"
      and keepl: "\<forall>q. q \<notin> set usl \<longrightarrow> cells (after resl) q = cells ?h2 q"
      and postl: "(case resl of
              Throw e h' \<Rightarrow> e = bad_alloc
            | Ok x h' \<Rightarrow>
                (\<exists>t'. x = root_of t' \<and> stored (cells h') t' \<and> same_data l t'
                   \<and> distinct (addrs t') \<and> set (addrs t') \<subseteq> set usl))"
      by (simp_all add: cloned_def)
    from fl f2 have fsl: "fs = usl @ free (after resl)"
      by simp
    have usl_free: "\<forall>q \<in> set usl. cells h q = None"
      using fsl fsfree by auto
    have n_usl: "n \<notin> set usl"
      using fsl nfs by auto
    show ?thesis
    proof (cases resl)
      case (Throw e h')
      with postl have e: "e = bad_alloc"
        by simp
      have "clone (root_of ?t) h = Some (Throw bad_alloc h')"
        using step cp2 cl Throw e by (simp add: clone_rest_def)
      moreover have "free h = (n # usl) @ free (after (Throw bad_alloc h'))"
        using Cons fsl Throw by simp
      moreover have "alloc_ok (after (Throw bad_alloc h'))"
        using okl Throw by simp
      moreover have "\<forall>q. q \<notin> set (n # usl) \<longrightarrow> cells (after (Throw bad_alloc h')) q = cells h q"
        using keepl same2 Throw by simp
      ultimately show ?thesis
        by (intro exI[of _ "Throw bad_alloc h'"] exI[of _ "n # usl"]) (simp add: cloned_def)
    next
      case (Ok xl h3)
      with postl obtain tl where xl: "xl = root_of tl" and stl: "stored (cells h3) tl"
        and sdl: "same_data l tl" and dtl: "distinct (addrs tl)"
        and atl: "set (addrs tl) \<subseteq> set usl"
        by auto
      from Ok okl keepl fsl have ok3: "alloc_ok h3"
        and keep3: "\<forall>q. q \<notin> set usl \<longrightarrow> cells h3 q = cells ?h2 q"
        and f3: "fs = usl @ free h3"
        by simp_all
      have cn3: "cells h3 n = Some ?n2"
        using keep3 n_usl cn2 by simp
      let ?n4 = "\<lparr>val = v, left = xl, right = None, dist = d\<rparr>"
      let ?h4 = "store n ?n4 h3"
      have nf3: "n \<notin> set (free h3)"
        using f3 nfs by auto
      have ok4: "alloc_ok ?h4"
        using ok3 nf3 by (rule alloc_ok_store)
      have old3: "\<And>q. cells h q \<noteq> None \<Longrightarrow> cells ?h4 q = cells h q"
      proof -
        fix q assume q: "cells h q \<noteq> None"
        with usl_free nfree have "q \<notin> set usl" and "q \<noteq> n"
          by auto
        with keep3 same2 show "cells ?h4 q = cells h q"
          by (simp add: store_def)
      qed
      have "\<forall>q \<in> set (addrs ?t). cells ?h4 q = cells h q"
        using live old3 by auto
      with st have st4: "stored (cells ?h4) ?t"
        by (rule stored_frame)
      then have cp4: "cells ?h4 p = Some ?nx" and sr4: "stored (cells ?h4) r"
        by simp_all
      from Cell.IH(2)[OF ok4 sr4] obtain resr usr where cr: "clone (root_of r) ?h4 = Some resr"
        and cloned_r: "cloned ?h4 r resr usr"
        by (elim exE conjE)
      from cloned_r have fr: "free ?h4 = usr @ free (after resr)"
        and okr: "alloc_ok (after resr)"
        and keepr: "\<forall>q. q \<notin> set usr \<longrightarrow> cells (after resr) q = cells ?h4 q"
        and postr: "(case resr of
                Throw e h' \<Rightarrow> e = bad_alloc
              | Ok x h' \<Rightarrow>
                  (\<exists>t'. x = root_of t' \<and> stored (cells h') t' \<and> same_data r t'
                     \<and> distinct (addrs t') \<and> set (addrs t') \<subseteq> set usr))"
        by (simp_all add: cloned_def)
      have f4: "free ?h4 = free h3"
        by (simp add: store_def)
      with fr f3 have fsr: "fs = usl @ usr @ free (after resr)"
        by simp
      have n_usr: "n \<notin> set usr"
        using fsr nfs by auto
      have lr_disj: "set usl \<inter> set usr = {}"
        using fsr dfs by auto
      have keep_all: "\<forall>q. q \<notin> set (n # usl @ usr) \<longrightarrow> cells (after resr) q = cells h q"
        using keepr keep3 same2 by (simp add: store_def)
      have rest: "clone_rest p n ?h2 =
          (case resr of
             Throw e h' \<Rightarrow> Some (Throw e h')
           | Ok x h5 \<Rightarrow>
               do {
                 n5 \<leftarrow> cells h5 n;
                 Some (Ok (Some n) (store n (n5\<lparr>right := x\<rparr>) h5))
               })"
        using cp2 cl Ok cn3 cp4 cr by (simp add: clone_rest_def)
      show ?thesis
      proof (cases resr)
        case (Throw e h')
        with postr have e: "e = bad_alloc"
          by simp
        have "clone (root_of ?t) h = Some (Throw bad_alloc h')"
          using step rest Throw e by simp
        moreover have "free h = (n # usl @ usr) @ free (after (Throw bad_alloc h'))"
          using Cons fsr Throw by simp
        moreover have "alloc_ok (after (Throw bad_alloc h'))"
          using okr Throw by simp
        moreover have "\<forall>q. q \<notin> set (n # usl @ usr)
            \<longrightarrow> cells (after (Throw bad_alloc h')) q = cells h q"
          using keep_all Throw by simp
        ultimately show ?thesis
          by (intro exI[of _ "Throw bad_alloc h'"] exI[of _ "n # usl @ usr"])
            (simp add: cloned_def)
      next
        case (Ok xr h5)
        note Okr = this
        with postr obtain tr where xr: "xr = root_of tr" and str: "stored (cells h5) tr"
          and sdr: "same_data r tr" and dtr: "distinct (addrs tr)"
          and atr: "set (addrs tr) \<subseteq> set usr"
          by auto
        from Okr okr keepr have ok5: "alloc_ok h5"
          and keep5: "\<forall>q. q \<notin> set usr \<longrightarrow> cells h5 q = cells ?h4 q"
          by simp_all
        have cn5: "cells h5 n = Some ?n4"
          using keep5 n_usr by (simp add: store_def)
        let ?n6 = "\<lparr>val = v, left = xl, right = xr, dist = d\<rparr>"
        let ?h6 = "store n ?n6 h5"
        let ?t' = "Cell n v d tl tr"
        have res: "clone (root_of ?t) h = Some (Ok (Some n) ?h6)"
          using step rest Okr cn5 by simp
        have nf5: "n \<notin> set (free h5)"
          using fsr nfs Okr by auto
        have ok6: "alloc_ok ?h6"
          using ok5 nf5 by (rule alloc_ok_store)
        have n_tl: "n \<notin> set (addrs tl)" and n_tr: "n \<notin> set (addrs tr)"
          using atl atr n_usl n_usr by auto
        have "\<forall>q \<in> set (addrs tl). cells ?h6 q = cells h3 q"
        proof
          fix q assume q: "q \<in> set (addrs tl)"
          with atl lr_disj have "q \<notin> set usr"
            by auto
          with keep5 have "cells h5 q = cells ?h4 q"
            by simp
          with q n_tl show "cells ?h6 q = cells h3 q"
            by (auto simp: store_def)
        qed
        with stl have stl6: "stored (cells ?h6) tl"
          by (rule stored_frame)
        have "\<forall>q \<in> set (addrs tr). cells ?h6 q = cells h5 q"
          using n_tr by (auto simp: store_def)
        with str have str6: "stored (cells ?h6) tr"
          by (rule stored_frame)
        have st': "stored (cells ?h6) ?t'"
          using stl6 str6 xl xr by (simp add: store_def)
        have dt': "distinct (addrs ?t')"
          using dtl dtr n_tl n_tr atl atr lr_disj by auto
        have at': "set (addrs ?t') \<subseteq> set (n # usl @ usr)"
          using atl atr by auto
        have keep6: "\<forall>q. q \<notin> set (n # usl @ usr) \<longrightarrow> cells ?h6 q = cells h q"
          using keep_all Okr by (simp add: store_def)
        have f6: "free h = (n # usl @ usr) @ free ?h6"
          using Cons fsr Okr by (simp add: store_def)
        have "\<exists>t'. Some n = root_of t' \<and> stored (cells ?h6) t' \<and> same_data ?t t'
            \<and> distinct (addrs t') \<and> set (addrs t') \<subseteq> set (n # usl @ usr)"
          using st' dt' at' sdl sdr by (intro exI[of _ ?t']) simp
        with res f6 ok6 keep6 show ?thesis
          by (intro exI[of _ "Ok (Some n) ?h6"] exI[of _ "n # usl @ usr"])
            (simp add: cloned_def)
      qed
    qed
  qed
qed

lemma world_invI:
  assumes "alloc_ok (mem w)"
    and "\<And>i. stored (cells (mem w)) (sh i)"
    and "\<And>i. distinct (addrs (sh i))"
    and "\<And>i. leftist (sh i)"
    and "\<And>i. heap_ordered R (sh i)"
    and "\<And>i j. i \<noteq> j \<Longrightarrow> set (addrs (sh i)) \<inter> set (addrs (sh j)) = {}"
    and "\<And>i. queues w i = None \<Longrightarrow> sh i = Null"
    and "\<And>i q. queues w i = Some q \<Longrightarrow>
           root q = root_of (sh i) \<and> cnt q = length (addrs (sh i)) \<and> cmp q = c"
  shows "world_inv c R w sh"
  unfolding world_inv_def
  using assms by simp

lemma inv_alloc: "world_inv c R w sh \<Longrightarrow> alloc_ok (mem w)"
  by (simp add: world_inv_def)

lemma inv_stored: "world_inv c R w sh \<Longrightarrow> stored (cells (mem w)) (sh i)"
  by (simp add: world_inv_def)

lemma inv_distinct: "world_inv c R w sh \<Longrightarrow> distinct (addrs (sh i))"
  by (simp add: world_inv_def)

lemma inv_leftist: "world_inv c R w sh \<Longrightarrow> leftist (sh i)"
  by (simp add: world_inv_def)

lemma inv_ordered: "world_inv c R w sh \<Longrightarrow> heap_ordered R (sh i)"
  by (simp add: world_inv_def)

lemma inv_disjoint:
  "world_inv c R w sh \<Longrightarrow> i \<noteq> j \<Longrightarrow> set (addrs (sh i)) \<inter> set (addrs (sh j)) = {}"
  by (simp add: world_inv_def)

lemma inv_no_queue: "world_inv c R w sh \<Longrightarrow> queues w i = None \<Longrightarrow> sh i = Null"
  by (simp add: world_inv_def)

lemma inv_queue:
  assumes "world_inv c R w sh" and q: "queues w i = Some q"
  shows "root q = root_of (sh i)" and "cnt q = length (addrs (sh i))" and "cmp q = c"
  using assms by (simp_all add: world_inv_def)

lemma inv_live:
  "world_inv c R w sh \<Longrightarrow> p \<in> set (addrs (sh i)) \<Longrightarrow> cells (mem w) p \<noteq> None"
  using inv_stored stored_live by fastforce

lemma inv_not_free:
  "world_inv c R w sh \<Longrightarrow> p \<in> set (free (mem w)) \<Longrightarrow> p \<notin> set (addrs (sh i))"
  using inv_live[of c R w sh p i] inv_alloc[of c R w sh] by (auto simp: alloc_ok_def)

lemma start_inv: "distinct fs \<Longrightarrow> world_inv c R (start fs) (\<lambda>i. Null)"
  by (simp add: world_inv_def start_def alloc_ok_def)

lemma same_data_leftist: "same_data t t' \<Longrightarrow> rk t = rk t' \<and> leftist t = leftist t'"
  by (induction t t' rule: same_data.induct) auto

lemma same_data_elems: "same_data t t' \<Longrightarrow> elems t = elems t'"
  by (induction t t' rule: same_data.induct) auto

lemma same_data_ordered: "same_data t t' \<Longrightarrow> heap_ordered R t = heap_ordered R t'"
  by (induction t t' rule: same_data.induct) (auto simp: same_data_elems)

lemma same_data_length: "same_data t t' \<Longrightarrow> length (addrs t) = length (addrs t')"
  by (induction t t' rule: same_data.induct) auto

section \<open>What each public operation does to a state that satisfies the invariant\<close>

lemma push_no_memory:
  assumes "queues w i = Some q" and "free (mem w) = []"
  shows "push i e w = Some (Throw bad_alloc w)"
  using assms by (simp add: push_def new_Node_def delete_def)

lemma push_meld:
  assumes inv: "world_inv c R w sh" and q: "queues w i = Some q"
    and fr: "free (mem w) = n # fs"
  shows "new_Node e (mem w) =
           Ok n ((mem w)\<lparr>cells := (cells (mem w))(n \<mapsto> \<lparr>val = e, left = None, right = None, dist = 1\<rparr>),
                        free := fs\<rparr>)"
    and "stored ((cells (mem w))(n \<mapsto> \<lparr>val = e, left = None, right = None, dist = 1\<rparr>)) (sh j)"
    and "stored ((cells (mem w))(n \<mapsto> \<lparr>val = e, left = None, right = None, dist = 1\<rparr>))
           (Cell n e 1 Null Null)"
    and "n \<notin> set (addrs (sh j))"
proof -
  show "new_Node e (mem w) =
           Ok n ((mem w)\<lparr>cells := (cells (mem w))(n \<mapsto> \<lparr>val = e, left = None, right = None, dist = 1\<rparr>),
                        free := fs\<rparr>)"
    using fr by (simp add: new_Node_def)
  show n: "n \<notin> set (addrs (sh j))"
    using inv_not_free[OF inv, of n j] fr by simp
  have "\<forall>p \<in> set (addrs (sh j)).
      ((cells (mem w))(n \<mapsto> \<lparr>val = e, left = None, right = None, dist = 1\<rparr>)) p = cells (mem w) p"
    using n by auto
  with inv_stored[OF inv, of j]
  show "stored ((cells (mem w))(n \<mapsto> \<lparr>val = e, left = None, right = None, dist = 1\<rparr>)) (sh j)"
    by (rule stored_frame)
  show "stored ((cells (mem w))(n \<mapsto> \<lparr>val = e, left = None, right = None, dist = 1\<rparr>))
           (Cell n e 1 Null Null)"
    by simp
qed

lemma push_compare_throws:
  assumes inv: "world_inv c R w sh" and q: "queues w i = Some q"
    and fr: "free (mem w) = n # fs"
    and m: "meld_sh c (sh i) (Cell n e 1 Null Null) = None"
  shows "push i e w = Some (Throw compare_threw w)"
proof -
  let ?n0 = "\<lparr>val = e, left = None, right = None, dist = 1\<rparr>"
  let ?h1 = "(mem w)\<lparr>cells := (cells (mem w))(n \<mapsto> ?n0), free := fs\<rparr>"
  note pm = push_meld[OF inv q fr]
  have d: "distinct (addrs (sh i) @ addrs (Cell n e 1 Null Null))"
    using inv_distinct[OF inv, of i] pm(4)[where j = i] by simp
  have s1: "stored (cells ?h1) (sh i)" and s2: "stored (cells ?h1) (Cell n e 1 Null Null)"
    using pm(2)[where j = i] pm(3) by simp_all
  from meld_refines[OF s1 s2 d, of c] m
  have "meld c (root_of (sh i)) (Some n) ?h1 = Some (Throw compare_threw ?h1)"
    by simp
  then have "push i e w = Some (Throw compare_threw (w\<lparr>mem := delete (Some n) ?h1\<rparr>))"
    using q pm(1) inv_queue[OF inv q] by (simp add: push_def)
  moreover have "delete (Some n) ?h1 = mem w"
    using new_then_delete[OF inv_alloc[OF inv] pm(1)] .
  ultimately show ?thesis
    by simp
qed

lemma push_returns:
  assumes su: "suits c R" and inv: "world_inv c R w sh" and q: "queues w i = Some q"
    and fr: "free (mem w) = n # fs"
    and m: "meld_sh c (sh i) (Cell n e 1 Null Null) = Some t"
  shows "\<exists>w'. push i e w = Some (Ok () w') \<and> world_inv c R w' (sh(i := t))
           \<and> free (mem w') = fs
           \<and> queues w' = (queues w)(i \<mapsto> q\<lparr>root := root_of t, cnt := cnt q + 1\<rparr>)"
proof -
  let ?n0 = "\<lparr>val = e, left = None, right = None, dist = 1\<rparr>"
  let ?tn = "Cell n e 1 Null Null"
  let ?h1 = "(mem w)\<lparr>cells := (cells (mem w))(n \<mapsto> ?n0), free := fs\<rparr>"
  note pm = push_meld[OF inv q fr]
  have d: "distinct (addrs (sh i) @ addrs ?tn)"
    using inv_distinct[OF inv, of i] pm(4)[where j = i] by simp
  have s1: "stored (cells ?h1) (sh i)" and s2: "stored (cells ?h1) ?tn"
    using pm(2)[where j = i] pm(3) by simp_all
  from meld_refines[OF s1 s2 d, of c] m
  obtain h' where ml: "meld c (root_of (sh i)) (Some n) ?h1 = Some (Ok (root_of t) h')"
    and st: "stored (cells h') t" and f': "free h' = fs"
    and keep: "\<forall>p. p \<notin> set (addrs (sh i)) \<union> set (addrs ?tn) \<longrightarrow> cells h' p = cells ?h1 p"
    by auto
  let ?q' = "q\<lparr>root := root_of t, cnt := cnt q + 1\<rparr>"
  let ?w' = "w\<lparr>mem := h', queues := (queues w)(i \<mapsto> ?q')\<rparr>"
  have res: "push i e w = Some (Ok () ?w')"
    using q pm(1) ml inv_queue[OF inv q] by (simp add: push_def)
  have at: "mset (addrs t) = mset (n # addrs (sh i))"
    using meld_sh_addrs[OF m] by simp
  have set_t: "set (addrs t) = insert n (set (addrs (sh i)))"
    using mset_eq_setD[OF at] by simp
  have len_t: "length (addrs t) = length (addrs (sh i)) + 1"
    using mset_eq_length[OF at] by simp
  from inv_alloc[OF inv] fr have dfs: "distinct fs" and nfs: "n \<notin> set fs"
    and fsfree: "\<forall>p \<in> set fs. cells (mem w) p = None"
    by (simp_all add: alloc_ok_def)
  have "world_inv c R ?w' (sh(i := t))"
  proof (rule world_invI)
    show "alloc_ok (mem ?w')"
    proof -
      have "\<forall>p \<in> set fs. cells h' p = None"
      proof
        fix p assume p: "p \<in> set fs"
        then have "p \<notin> set (addrs (sh i))"
          using inv_not_free[OF inv, of p i] fr by simp
        moreover from p nfs have "p \<noteq> n"
          by auto
        ultimately have "cells h' p = cells ?h1 p"
          using keep by simp
        with p fsfree \<open>p \<noteq> n\<close> show "cells h' p = None"
          by simp
      qed
      with dfs f' show ?thesis
        by (simp add: alloc_ok_def)
    qed
  next
    fix j
    show "stored (cells (mem ?w')) ((sh(i := t)) j)"
    proof (cases "j = i")
      case True
      with st show ?thesis
        by simp
    next
      case False
      have s1j: "stored (cells ?h1) (sh j)"
        using pm(2)[where j = j] by simp
      have "\<forall>p \<in> set (addrs (sh j)). cells h' p = cells ?h1 p"
      proof
        fix p assume p: "p \<in> set (addrs (sh j))"
        with inv_disjoint[OF inv False] have "p \<notin> set (addrs (sh i))"
          by auto
        moreover from p pm(4)[where j = j] have "p \<noteq> n"
          by auto
        ultimately show "cells h' p = cells ?h1 p"
          using keep by simp
      qed
      with s1j have "stored (cells h') (sh j)"
        by (rule stored_frame)
      with False show ?thesis
        by simp
    qed
  next
    fix j
    show "distinct (addrs ((sh(i := t)) j))"
    proof (cases "j = i")
      case True
      from d have "distinct (addrs t)"
        using mset_eq_imp_distinct_iff[OF at] by simp
      with True show ?thesis
        by simp
    next
      case False
      with inv_distinct[OF inv, of j] show ?thesis
        by simp
    qed
  next
    fix j
    have "leftist ?tn"
      by simp
    with meld_sh_leftist[OF m inv_leftist[OF inv, of i]] inv_leftist[OF inv, of j]
    show "leftist ((sh(i := t)) j)"
      by simp
  next
    fix j
    have "heap_ordered R ?tn"
      by simp
    with meld_sh_ordered[OF su m inv_ordered[OF inv, of i]] inv_ordered[OF inv, of j]
    show "heap_ordered R ((sh(i := t)) j)"
      by simp
  next
    fix j k :: nat
    assume "j \<noteq> k"
    then show "set (addrs ((sh(i := t)) j)) \<inter> set (addrs ((sh(i := t)) k)) = {}"
      using set_t inv_disjoint[OF inv, of j k] inv_disjoint[OF inv, of i k]
        inv_disjoint[OF inv, of j i] pm(4)[where j = j] pm(4)[where j = k]
      by auto
  next
    fix j
    assume "queues ?w' j = None"
    then show "(sh(i := t)) j = Null"
      using inv_no_queue[OF inv, of j] by (auto split: if_splits)
  next
    fix j q'
    assume "queues ?w' j = Some q'"
    then show "root q' = root_of ((sh(i := t)) j) \<and> cnt q' = length (addrs ((sh(i := t)) j))
        \<and> cmp q' = c"
      using inv_queue[OF inv, of j q'] inv_queue[OF inv q] len_t
      by (auto split: if_splits)
  qed
  with res f' show ?thesis
    by (intro exI[of _ ?w']) simp
qed

lemma inv_nonempty:
  assumes inv: "world_inv c R w sh" and q: "queues w i = Some q" and ne: "cnt q \<noteq> 0"
  shows "\<exists>p v d l r. sh i = Cell p v d l r"
proof (cases "sh i")
  case Null
  with inv_queue(2)[OF inv q] ne show ?thesis
    by simp
next
  case (Cell p v d l r)
  then show ?thesis
    by simp
qed

lemma inv_empty:
  assumes inv: "world_inv c R w sh" and q: "queues w i = Some q" and e: "cnt q = 0"
  shows "sh i = Null"
  using inv_queue(2)[OF inv q] e by (cases "sh i") simp_all

lemma top_q_returns:
  assumes inv: "world_inv c R w sh" and q: "queues w i = Some q"
    and sh: "sh i = Cell p v d l r"
  shows "top_q i w = Some (Ok v w)"
proof -
  from inv_queue[OF inv q] sh have "root q = Some p" and "cnt q \<noteq> 0"
    by simp_all
  moreover from inv_stored[OF inv, of i] sh
  have "cells (mem w) p = Some \<lparr>val = v, left = root_of l, right = root_of r, dist = d\<rparr>"
    by simp
  ultimately show ?thesis
    using q by (simp add: top_q_def empty_q_def)
qed

lemma pop_meld:
  assumes inv: "world_inv c R w sh" and q: "queues w i = Some q"
    and sh: "sh i = Cell p v d l r"
  shows "root q = Some p" and "cnt q = Suc (length (addrs l) + length (addrs r))"
    and "cells (mem w) p = Some \<lparr>val = v, left = root_of l, right = root_of r, dist = d\<rparr>"
    and "stored (cells (mem w)) l" and "stored (cells (mem w)) r"
    and "distinct (addrs l @ addrs r)"
    and "p \<notin> set (addrs l)" and "p \<notin> set (addrs r)"
  using inv_queue[OF inv q] inv_stored[OF inv, of i] inv_distinct[OF inv, of i] sh
  by simp_all

lemma pop_compare_throws:
  assumes inv: "world_inv c R w sh" and q: "queues w i = Some q"
    and sh: "sh i = Cell p v d l r" and m: "meld_sh c l r = None"
  shows "pop i w = Some (Throw compare_threw w)"
proof -
  note pm = pop_meld[OF inv q sh]
  from meld_refines[OF pm(4) pm(5) pm(6), of c] m
  have "meld c (root_of l) (root_of r) (mem w) = Some (Throw compare_threw (mem w))"
    by simp
  then show ?thesis
    using q pm(1,2,3) inv_queue(3)[OF inv q] by (simp add: pop_def empty_q_def)
qed

lemma pop_returns:
  assumes su: "suits c R" and inv: "world_inv c R w sh" and q: "queues w i = Some q"
    and sh: "sh i = Cell p v d l r" and m: "meld_sh c l r = Some t"
  shows "\<exists>w'. pop i w = Some (Ok () w') \<and> world_inv c R w' (sh(i := t))
           \<and> free (mem w') = p # free (mem w)
           \<and> queues w' = (queues w)(i \<mapsto> q\<lparr>root := root_of t, cnt := cnt q - 1\<rparr>)"
proof -
  note pm = pop_meld[OF inv q sh]
  from meld_refines[OF pm(4) pm(5) pm(6), of c] m
  obtain h1 where ml: "meld c (root_of l) (root_of r) (mem w) = Some (Ok (root_of t) h1)"
    and st: "stored (cells h1) t" and f1: "free h1 = free (mem w)"
    and keep: "\<forall>x. x \<notin> set (addrs l) \<union> set (addrs r) \<longrightarrow> cells h1 x = cells (mem w) x"
    by auto
  have cp1: "cells h1 p = Some \<lparr>val = v, left = root_of l, right = root_of r, dist = d\<rparr>"
    using keep pm(3,7,8) by simp
  let ?h' = "delete (Some p) h1"
  let ?q' = "q\<lparr>root := root_of t, cnt := cnt q - 1\<rparr>"
  let ?w' = "w\<lparr>mem := ?h', queues := (queues w)(i \<mapsto> ?q')\<rparr>"
  have res: "pop i w = Some (Ok () ?w')"
    using q pm(1,2,3) ml cp1 inv_queue(3)[OF inv q] by (simp add: pop_def empty_q_def)
  have at: "mset (addrs t) = mset (addrs l @ addrs r)"
    using meld_sh_addrs[OF m] by simp
  have set_t: "set (addrs t) = set (addrs l) \<union> set (addrs r)"
    using mset_eq_setD[OF at] by simp
  have len_t: "length (addrs t) = length (addrs l) + length (addrs r)"
    using mset_eq_length[OF at] by simp
  have sub: "set (addrs t) \<subseteq> set (addrs (sh i))" and pt: "p \<notin> set (addrs t)"
    using set_t sh pm(7,8) by auto
  have cells': "\<And>x. x \<noteq> p \<Longrightarrow> cells ?h' x = cells h1 x"
    by (simp add: delete_def)
  have outside: "\<And>x. x \<notin> set (addrs (sh i)) \<Longrightarrow> cells ?h' x = cells (mem w) x"
  proof -
    fix x assume x: "x \<notin> set (addrs (sh i))"
    with sh have "x \<noteq> p" and "x \<notin> set (addrs l) \<union> set (addrs r)"
      by auto
    with keep cells' show "cells ?h' x = cells (mem w) x"
      by simp
  qed
  have "world_inv c R ?w' (sh(i := t))"
  proof (rule world_invI)
    show "alloc_ok (mem ?w')"
    proof -
      have pfree: "p \<notin> set (free (mem w))"
        using alloc_ok_live[OF inv_alloc[OF inv], of p] pm(3) by simp
      have "\<forall>x \<in> set (free (mem w)). cells ?h' x = None"
      proof
        fix x assume x: "x \<in> set (free (mem w))"
        with inv_not_free[OF inv, of x i] have "x \<notin> set (addrs (sh i))"
          by simp
        with outside have "cells ?h' x = cells (mem w) x"
          by simp
        with x inv_alloc[OF inv] show "cells ?h' x = None"
          by (simp add: alloc_ok_def)
      qed
      moreover have "cells ?h' p = None"
        by (simp add: delete_def)
      moreover have "free ?h' = p # free (mem w)"
        using f1 by (simp add: delete_def)
      moreover have "distinct (free (mem w))"
        using inv_alloc[OF inv] by (simp add: alloc_ok_def)
      ultimately show ?thesis
        using pfree by (simp add: alloc_ok_def)
    qed
  next
    fix j
    show "stored (cells (mem ?w')) ((sh(i := t)) j)"
    proof (cases "j = i")
      case True
      have "\<forall>x \<in> set (addrs t). cells ?h' x = cells h1 x"
        using pt by (auto simp: delete_def)
      with st have "stored (cells ?h') t"
        by (rule stored_frame)
      with True show ?thesis
        by simp
    next
      case False
      have "\<forall>x \<in> set (addrs (sh j)). cells ?h' x = cells (mem w) x"
      proof
        fix x assume "x \<in> set (addrs (sh j))"
        with inv_disjoint[OF inv False] have "x \<notin> set (addrs (sh i))"
          by auto
        then show "cells ?h' x = cells (mem w) x"
          by (rule outside)
      qed
      with inv_stored[OF inv, of j] have "stored (cells ?h') (sh j)"
        by (rule stored_frame)
      with False show ?thesis
        by simp
    qed
  next
    fix j
    have "distinct (addrs t)"
      using mset_eq_imp_distinct_iff[OF at] pm(6) by simp
    with inv_distinct[OF inv, of j] show "distinct (addrs ((sh(i := t)) j))"
      by simp
  next
    fix j
    from inv_leftist[OF inv, of i] sh have "leftist l" and "leftist r"
      by simp_all
    with meld_sh_leftist[OF m] inv_leftist[OF inv, of j]
    show "leftist ((sh(i := t)) j)"
      by simp
  next
    fix j
    from inv_ordered[OF inv, of i] sh have "heap_ordered R l" and "heap_ordered R r"
      by simp_all
    with meld_sh_ordered[OF su m] inv_ordered[OF inv, of j]
    show "heap_ordered R ((sh(i := t)) j)"
      by simp
  next
    fix j k :: nat
    assume "j \<noteq> k"
    then show "set (addrs ((sh(i := t)) j)) \<inter> set (addrs ((sh(i := t)) k)) = {}"
      using sub inv_disjoint[OF inv, of j k] inv_disjoint[OF inv, of i k]
        inv_disjoint[OF inv, of j i]
      by auto
  next
    fix j
    assume "queues ?w' j = None"
    then show "(sh(i := t)) j = Null"
      using inv_no_queue[OF inv, of j] by (auto split: if_splits)
  next
    fix j q'
    assume "queues ?w' j = Some q'"
    then show "root q' = root_of ((sh(i := t)) j) \<and> cnt q' = length (addrs ((sh(i := t)) j))
        \<and> cmp q' = c"
      using inv_queue[OF inv, of j q'] inv_queue[OF inv q] len_t pm(2)
      by (auto split: if_splits)
  qed
  moreover have "free (mem ?w') = p # free (mem w)"
    using f1 by (simp add: delete_def)
  ultimately show ?thesis
    using res by (intro exI[of _ ?w']) simp
qed

lemma merge_compare_throws:
  assumes inv: "world_inv c R w sh" and ne: "i \<noteq> j"
    and q: "queues w i = Some q" and ot: "queues w j = Some ot"
    and m: "meld_sh c (sh i) (sh j) = None"
  shows "merge i j w = Some (Throw compare_threw w)"
proof -
  have d: "distinct (addrs (sh i) @ addrs (sh j))"
    using inv_distinct[OF inv] inv_disjoint[OF inv ne] by simp
  from meld_refines[OF inv_stored[OF inv] inv_stored[OF inv] d, of c] m
  have "meld c (root_of (sh i)) (root_of (sh j)) (mem w) = Some (Throw compare_threw (mem w))"
    by simp
  then show ?thesis
    using ne q ot inv_queue[OF inv q] inv_queue[OF inv ot] by (simp add: merge_def)
qed

lemma merge_returns:
  assumes su: "suits c R" and inv: "world_inv c R w sh" and ne: "i \<noteq> j"
    and q: "queues w i = Some q" and ot: "queues w j = Some ot"
    and m: "meld_sh c (sh i) (sh j) = Some t"
  shows "\<exists>w'. merge i j w = Some (Ok () w') \<and> world_inv c R w' (sh(i := t, j := Null))
           \<and> free (mem w') = free (mem w)
           \<and> queues w' = (queues w)(i \<mapsto> q\<lparr>root := root_of t, cnt := cnt q + cnt ot\<rparr>,
                                     j \<mapsto> ot\<lparr>root := None, cnt := 0\<rparr>)"
proof -
  have d: "distinct (addrs (sh i) @ addrs (sh j))"
    using inv_distinct[OF inv] inv_disjoint[OF inv ne] by simp
  from meld_refines[OF inv_stored[OF inv] inv_stored[OF inv] d, of c] m
  obtain h1 where ml: "meld c (root_of (sh i)) (root_of (sh j)) (mem w) = Some (Ok (root_of t) h1)"
    and st: "stored (cells h1) t" and f1: "free h1 = free (mem w)"
    and keep: "\<forall>x. x \<notin> set (addrs (sh i)) \<union> set (addrs (sh j)) \<longrightarrow> cells h1 x = cells (mem w) x"
    by auto
  let ?q' = "q\<lparr>root := root_of t, cnt := cnt q + cnt ot\<rparr>"
  let ?o' = "ot\<lparr>root := None, cnt := 0\<rparr>"
  let ?w' = "w\<lparr>mem := h1, queues := (queues w)(i \<mapsto> ?q', j \<mapsto> ?o')\<rparr>"
  have res: "merge i j w = Some (Ok () ?w')"
    using ne q ot ml inv_queue[OF inv q] inv_queue[OF inv ot] by (simp add: merge_def)
  have at: "mset (addrs t) = mset (addrs (sh i) @ addrs (sh j))"
    using meld_sh_addrs[OF m] by simp
  have set_t: "set (addrs t) = set (addrs (sh i)) \<union> set (addrs (sh j))"
    using mset_eq_setD[OF at] by simp
  have len_t: "length (addrs t) = length (addrs (sh i)) + length (addrs (sh j))"
    using mset_eq_length[OF at] by simp
  have "world_inv c R ?w' (sh(i := t, j := Null))"
  proof (rule world_invI)
    show "alloc_ok (mem ?w')"
    proof -
      have "\<forall>x \<in> set (free (mem w)). cells h1 x = None"
      proof
        fix x assume x: "x \<in> set (free (mem w))"
        with inv_not_free[OF inv, of x] have "x \<notin> set (addrs (sh i)) \<union> set (addrs (sh j))"
          by simp
        with keep have "cells h1 x = cells (mem w) x"
          by simp
        with x inv_alloc[OF inv] show "cells h1 x = None"
          by (simp add: alloc_ok_def)
      qed
      moreover have "distinct (free (mem w))"
        using inv_alloc[OF inv] by (simp add: alloc_ok_def)
      ultimately show ?thesis
        using f1 by (simp add: alloc_ok_def)
    qed
  next
    fix k
    show "stored (cells (mem ?w')) ((sh(i := t, j := Null)) k)"
    proof (cases "k = i \<or> k = j")
      case True
      with st ne show ?thesis
        by auto
    next
      case False
      have "\<forall>x \<in> set (addrs (sh k)). cells h1 x = cells (mem w) x"
      proof
        fix x assume "x \<in> set (addrs (sh k))"
        with inv_disjoint[OF inv, of k i] inv_disjoint[OF inv, of k j] False
        have "x \<notin> set (addrs (sh i)) \<union> set (addrs (sh j))"
          by auto
        with keep show "cells h1 x = cells (mem w) x"
          by simp
      qed
      with inv_stored[OF inv, of k] have "stored (cells h1) (sh k)"
        by (rule stored_frame)
      with False show ?thesis
        by simp
    qed
  next
    fix k
    have "distinct (addrs t)"
      using mset_eq_imp_distinct_iff[OF at] d by simp
    with inv_distinct[OF inv, of k] show "distinct (addrs ((sh(i := t, j := Null)) k))"
      by simp
  next
    fix k
    from meld_sh_leftist[OF m inv_leftist[OF inv] inv_leftist[OF inv]] inv_leftist[OF inv, of k]
    show "leftist ((sh(i := t, j := Null)) k)"
      by simp
  next
    fix k
    from meld_sh_ordered[OF su m inv_ordered[OF inv] inv_ordered[OF inv]]
      inv_ordered[OF inv, of k]
    show "heap_ordered R ((sh(i := t, j := Null)) k)"
      by simp
  next
    fix k l :: nat
    assume "k \<noteq> l"
    then show "set (addrs ((sh(i := t, j := Null)) k)) \<inter> set (addrs ((sh(i := t, j := Null)) l)) = {}"
      using set_t inv_disjoint[OF inv, of k l] inv_disjoint[OF inv, of i l]
        inv_disjoint[OF inv, of k i] inv_disjoint[OF inv, of j l] inv_disjoint[OF inv, of k j]
      by auto
  next
    fix k
    assume "queues ?w' k = None"
    then show "(sh(i := t, j := Null)) k = Null"
      using inv_no_queue[OF inv, of k] by (auto split: if_splits)
  next
    fix k q'
    assume "queues ?w' k = Some q'"
    then show "root q' = root_of ((sh(i := t, j := Null)) k)
        \<and> cnt q' = length (addrs ((sh(i := t, j := Null)) k)) \<and> cmp q' = c"
      using inv_queue[OF inv, of k q'] inv_queue[OF inv q] inv_queue[OF inv ot] len_t ne
      by (auto split: if_splits)
  qed
  with res f1 show ?thesis
    by (intro exI[of _ ?w']) simp
qed

lemma cloned_used_free:
  assumes "alloc_ok h" and "cloned h t res us" and "p \<in> set us"
  shows "cells h p = None"
proof -
  from assms(2) have "free h = us @ free (after res)"
    by (simp add: cloned_def)
  with assms(3) have "p \<in> set (free h)"
    by simp
  with assms(1) show ?thesis
    by (simp add: alloc_ok_def)
qed

lemma cloned_keeps:
  assumes ok: "alloc_ok h" and cl: "cloned h t res us" and st: "stored (cells h) s"
  shows "stored (cells (after res)) s"
proof -
  have "\<forall>p \<in> set (addrs s). cells (after res) p = cells h p"
  proof
    fix p assume "p \<in> set (addrs s)"
    with st have "cells h p \<noteq> None"
      by (rule stored_live)
    with cloned_used_free[OF ok cl, of p] have "p \<notin> set us"
      by auto
    with cl show "cells (after res) p = cells h p"
      by (simp add: cloned_def)
  qed
  with st show ?thesis
    by (rule stored_frame)
qed

text \<open>A clone, finished or not, leaves the invariant of the state as it was.\<close>

lemma cloned_inv:
  assumes inv: "world_inv c R w sh" and cl: "cloned (mem w) t res us"
  shows "world_inv c R (w\<lparr>mem := after res\<rparr>) sh"
proof (rule world_invI)
  show "alloc_ok (mem (w\<lparr>mem := after res\<rparr>))"
    using cl by (simp add: cloned_def)
next
  fix i
  show "stored (cells (mem (w\<lparr>mem := after res\<rparr>))) (sh i)"
    using cloned_keeps[OF inv_alloc[OF inv] cl inv_stored[OF inv, of i]] by simp
next
  fix i
  show "distinct (addrs (sh i))" and "leftist (sh i)" and "heap_ordered R (sh i)"
    using inv_distinct[OF inv] inv_leftist[OF inv] inv_ordered[OF inv] by simp_all
next
  fix i j :: nat
  assume "i \<noteq> j"
  then show "set (addrs (sh i)) \<inter> set (addrs (sh j)) = {}"
    by (rule inv_disjoint[OF inv])
next
  fix i
  assume "queues (w\<lparr>mem := after res\<rparr>) i = None"
  then show "sh i = Null"
    using inv_no_queue[OF inv, of i] by simp
next
  fix i q
  assume "queues (w\<lparr>mem := after res\<rparr>) i = Some q"
  then show "root q = root_of (sh i) \<and> cnt q = length (addrs (sh i)) \<and> cmp q = c"
    using inv_queue[OF inv, of i q] by simp
qed

text \<open>Putting a tree that shares no node with the others under a handle.\<close>

lemma inv_replace:
  assumes inv: "world_inv c R w sh"
    and st: "stored (cells (mem w)) t" and di: "distinct (addrs t)"
    and le: "leftist t" and ho: "heap_ordered R t"
    and fresh: "\<And>j. j \<noteq> i \<Longrightarrow> set (addrs t) \<inter> set (addrs (sh j)) = {}"
    and qs: "Q = (queues w)(i \<mapsto> q)"
    and q: "root q = root_of t" "cnt q = length (addrs t)" "cmp q = c"
  shows "world_inv c R (w\<lparr>queues := Q\<rparr>) (sh(i := t))"
proof (rule world_invI)
  show "alloc_ok (mem (w\<lparr>queues := Q\<rparr>))"
    using inv_alloc[OF inv] by simp
next
  fix j
  show "stored (cells (mem (w\<lparr>queues := Q\<rparr>))) ((sh(i := t)) j)"
    using st inv_stored[OF inv, of j] by simp
next
  fix j
  show "distinct (addrs ((sh(i := t)) j))" and "leftist ((sh(i := t)) j)"
    and "heap_ordered R ((sh(i := t)) j)"
    using di le ho inv_distinct[OF inv, of j] inv_leftist[OF inv, of j]
      inv_ordered[OF inv, of j] by simp_all
next
  fix j k :: nat
  assume "j \<noteq> k"
  then show "set (addrs ((sh(i := t)) j)) \<inter> set (addrs ((sh(i := t)) k)) = {}"
    using fresh[of j] fresh[of k] inv_disjoint[OF inv, of j k] by auto
next
  fix j
  assume "queues (w\<lparr>queues := Q\<rparr>) j = None"
  then show "(sh(i := t)) j = Null"
    using inv_no_queue[OF inv, of j] qs by (auto split: if_splits)
next
  fix j q'
  assume "queues (w\<lparr>queues := Q\<rparr>) j = Some q'"
  then show "root q' = root_of ((sh(i := t)) j) \<and> cnt q' = length (addrs ((sh(i := t)) j))
      \<and> cmp q' = c"
    using inv_queue[OF inv, of j q'] qs q by (auto split: if_splits)
qed

lemma copy_construct_stored:
  assumes ok: "alloc_ok h" and st: "stored (cells h) t" and r: "root ot = root_of t"
  shows "\<exists>res us. clone (root_of t) h = Some res \<and> cloned h t res us
           \<and> copy_construct ot h =
                Some (case res of
                        Throw e h' \<Rightarrow> Throw e h'
                      | Ok x h' \<Rightarrow> Ok \<lparr>root = x, cnt = cnt ot, cmp = cmp ot\<rparr> h')"
proof -
  from clone_stored[OF ok st] obtain res us where cl: "clone (root_of t) h = Some res"
    and cd: "cloned h t res us"
    by (elim exE conjE)
  have "copy_construct ot h =
          Some (case res of
                  Throw e h' \<Rightarrow> Throw e h'
                | Ok x h' \<Rightarrow> Ok \<lparr>root = x, cnt = cnt ot, cmp = cmp ot\<rparr> h')"
    using cl r by (cases res) (simp_all add: copy_construct_def)
  with cl cd show ?thesis
    by (intro exI[of _ res] exI[of _ us]) simp
qed

text \<open>
  The copy constructor either throws \<open>bad_alloc\<close>, with every queue as it was, or builds a
  queue that holds a tree with the values and ranks of the source's tree.
\<close>

lemma copy_inv:
  assumes inv: "world_inv c R w sh" and qi: "queues w i = None"
    and ot: "queues w j = Some ot"
  shows "(\<exists>w'. copy i j w = Some (Throw bad_alloc w') \<and> world_inv c R w' sh
             \<and> queues w' = queues w)
       \<or> (\<exists>w' t'. copy i j w = Some (Ok () w') \<and> world_inv c R w' (sh(i := t'))
             \<and> same_data (sh j) t'
             \<and> queues w' = (queues w)(i \<mapsto> \<lparr>root = root_of t', cnt = cnt ot, cmp = cmp ot\<rparr>))"
proof -
  note oq = inv_queue[OF inv ot]
  from copy_construct_stored[OF inv_alloc[OF inv] inv_stored[OF inv, of j] oq(1)]
  obtain res us where cd: "cloned (mem w) (sh j) res us"
    and cc: "copy_construct ot (mem w) =
                Some (case res of
                        Throw e h' \<Rightarrow> Throw e h'
                      | Ok x h' \<Rightarrow> Ok \<lparr>root = x, cnt = cnt ot, cmp = cmp ot\<rparr> h')"
    by (elim exE conjE)
  note inv1 = cloned_inv[OF inv cd]
  show ?thesis
  proof (cases res)
    case (Throw e h')
    with cd have "e = bad_alloc"
      by (simp add: cloned_def)
    with Throw cc qi ot have "copy i j w = Some (Throw bad_alloc (w\<lparr>mem := h'\<rparr>))"
      by (simp add: copy_def)
    moreover from inv1 Throw have "world_inv c R (w\<lparr>mem := h'\<rparr>) sh"
      by simp
    ultimately show ?thesis
      by (intro disjI1 exI[of _ "w\<lparr>mem := h'\<rparr>"]) simp
  next
    case (Ok x h')
    with cd obtain t' where x: "x = root_of t'" and st: "stored (cells h') t'"
      and sd: "same_data (sh j) t'" and di: "distinct (addrs t')"
      and sub: "set (addrs t') \<subseteq> set us"
      by (auto simp: cloned_def)
    let ?q = "\<lparr>root = root_of t', cnt = cnt ot, cmp = cmp ot\<rparr>"
    let ?w' = "w\<lparr>mem := h', queues := (queues w)(i \<mapsto> ?q)\<rparr>"
    from Ok cc qi ot x have res: "copy i j w = Some (Ok () ?w')"
      by (simp add: copy_def)
    from inv1 Ok have inv1': "world_inv c R (w\<lparr>mem := h'\<rparr>) sh"
      by simp
    have fresh: "\<And>k. set (addrs t') \<inter> set (addrs (sh k)) = {}"
    proof -
      fix k
      have "\<And>p. p \<in> set (addrs t') \<Longrightarrow> p \<notin> set (addrs (sh k))"
      proof
        fix p assume "p \<in> set (addrs t')" and "p \<in> set (addrs (sh k))"
        with sub have "p \<in> set us" and "cells (mem w) p \<noteq> None"
          using inv_live[OF inv] by auto
        with cloned_used_free[OF inv_alloc[OF inv] cd] show False
          by simp
      qed
      then show "set (addrs t') \<inter> set (addrs (sh k)) = {}"
        by auto
    qed
    have "world_inv c R ((w\<lparr>mem := h'\<rparr>)\<lparr>queues := (queues w)(i \<mapsto> ?q)\<rparr>) (sh(i := t'))"
    proof (rule inv_replace[OF inv1'])
      show "stored (cells (mem (w\<lparr>mem := h'\<rparr>))) t'"
        using st by simp
      show "distinct (addrs t')"
        by (rule di)
      show "leftist t'"
        using same_data_leftist[OF sd] inv_leftist[OF inv, of j] by simp
      show "heap_ordered R t'"
        using same_data_ordered[OF sd] inv_ordered[OF inv, of j] by simp
      show "\<And>k. k \<noteq> i \<Longrightarrow> set (addrs t') \<inter> set (addrs (sh k)) = {}"
        by (rule fresh)
      show "(queues w)(i \<mapsto> ?q) = (queues (w\<lparr>mem := h'\<rparr>))(i \<mapsto> ?q)"
        by simp
      show "root ?q = root_of t'" and "cnt ?q = length (addrs t')" and "cmp ?q = c"
        using oq same_data_length[OF sd] by simp_all
    qed
    then have "world_inv c R ?w' (sh(i := t'))"
      by simp
    with res sd show ?thesis
      by (intro disjI2 exI[of _ ?w'] exI[of _ t']) simp
  qed
qed

lemma destroy_world:
  assumes inv: "world_inv c R w sh"
  shows "\<exists>h'. destroy (root_of (sh i)) (mem w) = Some h' \<and> alloc_ok h'
           \<and> (\<forall>p. p \<notin> set (addrs (sh i)) \<longrightarrow> cells h' p = cells (mem w) p)"
proof -
  from destroy_stored[OF inv_stored[OF inv, of i] inv_distinct[OF inv, of i]]
  obtain h' us where d: "destroy (root_of (sh i)) (mem w) = Some h'"
    and keep: "\<forall>p. p \<notin> set (addrs (sh i)) \<longrightarrow> cells h' p = cells (mem w) p"
    and gone: "\<forall>p \<in> set (addrs (sh i)). cells h' p = None"
    and f: "free h' = us @ free (mem w)" and u: "set us = set (addrs (sh i))" "distinct us"
    by (elim exE conjE)
  from destroy_alloc_ok[OF inv_alloc[OF inv] d keep gone f u inv_stored[OF inv, of i]]
  have "alloc_ok h'" .
  with d keep show ?thesis
    by (intro exI[of _ h']) simp
qed

lemma frame_stored:
  assumes "\<forall>p. p \<notin> A \<longrightarrow> cs' p = cs p" and "stored cs s" and "set (addrs s) \<inter> A = {}"
  shows "stored cs' s"
proof -
  have "\<forall>p \<in> set (addrs s). cs' p = cs p"
  proof
    fix p assume "p \<in> set (addrs s)"
    with assms(3) have "p \<notin> A"
      by auto
    with assms(1) show "cs' p = cs p"
      by simp
  qed
  with assms(2) show ?thesis
    by (rule stored_frame)
qed

text \<open>The destructor returns, and the handle and the nodes of its tree are gone.\<close>

lemma destruct_returns:
  assumes inv: "world_inv c R w sh" and q: "queues w i = Some q"
  shows "\<exists>w'. destruct i w = Some (Ok () w') \<and> world_inv c R w' (sh(i := Null))
           \<and> queues w' = (queues w)(i := None)"
proof -
  from destroy_world[OF inv, of i] obtain h' where
    d: "destroy (root_of (sh i)) (mem w) = Some h'" and ok: "alloc_ok h'"
    and keep: "\<forall>p. p \<notin> set (addrs (sh i)) \<longrightarrow> cells h' p = cells (mem w) p"
    by (elim exE conjE)
  let ?w' = "w\<lparr>mem := h', queues := (queues w)(i := None)\<rparr>"
  have res: "destruct i w = Some (Ok () ?w')"
    using q d inv_queue(1)[OF inv q] by (simp add: destruct_def)
  have "world_inv c R ?w' (sh(i := Null))"
  proof (rule world_invI)
    show "alloc_ok (mem ?w')"
      using ok by simp
  next
    fix j
    show "stored (cells (mem ?w')) ((sh(i := Null)) j)"
    proof (cases "j = i")
      case True
      then show ?thesis
        by simp
    next
      case False
      from frame_stored[OF keep inv_stored[OF inv, of j] inv_disjoint[OF inv False]] False
      show ?thesis
        by simp
    qed
  next
    fix j
    show "distinct (addrs ((sh(i := Null)) j))" and "leftist ((sh(i := Null)) j)"
      and "heap_ordered R ((sh(i := Null)) j)"
      using inv_distinct[OF inv, of j] inv_leftist[OF inv, of j] inv_ordered[OF inv, of j]
      by simp_all
  next
    fix j k :: nat
    assume "j \<noteq> k"
    then show "set (addrs ((sh(i := Null)) j)) \<inter> set (addrs ((sh(i := Null)) k)) = {}"
      using inv_disjoint[OF inv, of j k] by simp
  next
    fix j
    assume "queues ?w' j = None"
    then show "(sh(i := Null)) j = Null"
      using inv_no_queue[OF inv, of j] by (cases "j = i") simp_all
  next
    fix j q'
    assume "queues ?w' j = Some q'"
    then show "root q' = root_of ((sh(i := Null)) j)
        \<and> cnt q' = length (addrs ((sh(i := Null)) j)) \<and> cmp q' = c"
      using inv_queue[OF inv, of j q'] by (cases "j = i") simp_all
  qed
  with res show ?thesis
    by (intro exI[of _ ?w']) simp
qed

text \<open>
  Assignment between two different handles either throws \<open>bad_alloc\<close>, with every queue
  as it was, or leaves the receiver with a tree that has the values and ranks of the
  source's tree.
\<close>

lemma assign_inv:
  assumes inv: "world_inv c R w sh" and ne: "i \<noteq> j"
    and q: "queues w i = Some q" and ot: "queues w j = Some ot"
  shows "(\<exists>w'. assign i j w = Some (Throw bad_alloc w') \<and> world_inv c R w' sh
             \<and> queues w' = queues w)
       \<or> (\<exists>w' t'. assign i j w = Some (Ok () w') \<and> world_inv c R w' (sh(i := t'))
             \<and> same_data (sh j) t'
             \<and> queues w' =
                 (queues w)(i \<mapsto> q\<lparr>root := root_of t', cnt := cnt ot, cmp := cmp ot\<rparr>))"
proof -
  note oq = inv_queue[OF inv ot] and qq = inv_queue[OF inv q]
  from copy_construct_stored[OF inv_alloc[OF inv] inv_stored[OF inv, of j] oq(1)]
  obtain res us where cd: "cloned (mem w) (sh j) res us"
    and cc: "copy_construct ot (mem w) =
                Some (case res of
                        Throw e h' \<Rightarrow> Throw e h'
                      | Ok x h' \<Rightarrow> Ok \<lparr>root = x, cnt = cnt ot, cmp = cmp ot\<rparr> h')"
    by (elim exE conjE)
  note inv1 = cloned_inv[OF inv cd]
  show ?thesis
  proof (cases res)
    case (Throw e h')
    with cd have "e = bad_alloc"
      by (simp add: cloned_def)
    with Throw cc ne q ot have "assign i j w = Some (Throw bad_alloc (w\<lparr>mem := h'\<rparr>))"
      by (simp add: assign_def)
    moreover from inv1 Throw have "world_inv c R (w\<lparr>mem := h'\<rparr>) sh"
      by simp
    ultimately show ?thesis
      by (intro disjI1 exI[of _ "w\<lparr>mem := h'\<rparr>"]) simp
  next
    case (Ok x h1)
    with cd obtain t' where x: "x = root_of t'" and st: "stored (cells h1) t'"
      and sd: "same_data (sh j) t'" and di: "distinct (addrs t')"
      and sub: "set (addrs t') \<subseteq> set us"
      by (auto simp: cloned_def)
    from inv1 Ok have inv1': "world_inv c R (w\<lparr>mem := h1\<rparr>) sh"
      by simp
    have fresh: "\<And>k. set (addrs t') \<inter> set (addrs (sh k)) = {}"
    proof -
      fix k
      have "\<And>p. p \<in> set (addrs t') \<Longrightarrow> p \<notin> set (addrs (sh k))"
      proof
        fix p assume "p \<in> set (addrs t')" and "p \<in> set (addrs (sh k))"
        with sub have "p \<in> set us" and "cells (mem w) p \<noteq> None"
          using inv_live[OF inv] by auto
        with cloned_used_free[OF inv_alloc[OF inv] cd] show False
          by simp
      qed
      then show "set (addrs t') \<inter> set (addrs (sh k)) = {}"
        by auto
    qed
    from destroy_world[OF inv1', of i] obtain h2 where
      d: "destroy (root_of (sh i)) h1 = Some h2" and ok2: "alloc_ok h2"
      and keep: "\<forall>p. p \<notin> set (addrs (sh i)) \<longrightarrow> cells h2 p = cells h1 p"
      by (auto simp del: root_of_None)
    let ?q = "q\<lparr>root := root_of t', cnt := cnt ot, cmp := cmp ot\<rparr>"
    let ?w' = "w\<lparr>mem := h2, queues := (queues w)(i \<mapsto> ?q)\<rparr>"
    have res: "assign i j w = Some (Ok () ?w')"
      using Ok cc ne q ot x d qq(1) by (simp add: assign_def)
    have "world_inv c R ?w' (sh(i := t'))"
    proof (rule world_invI)
      show "alloc_ok (mem ?w')"
        using ok2 by simp
    next
      fix k
      show "stored (cells (mem ?w')) ((sh(i := t')) k)"
      proof (cases "k = i")
        case True
        from frame_stored[OF keep st fresh[of i]] True show ?thesis
          by simp
      next
        case False
        from frame_stored[OF keep _ inv_disjoint[OF inv False]] inv_stored[OF inv1', of k] False
        show ?thesis
          by simp
      qed
    next
      fix k
      show "distinct (addrs ((sh(i := t')) k))"
        using di inv_distinct[OF inv, of k] by simp
      show "leftist ((sh(i := t')) k)"
        using same_data_leftist[OF sd] inv_leftist[OF inv, of j] inv_leftist[OF inv, of k]
        by simp
      show "heap_ordered R ((sh(i := t')) k)"
        using same_data_ordered[OF sd] inv_ordered[OF inv, of j] inv_ordered[OF inv, of k]
        by simp
    next
      fix k l :: nat
      assume "k \<noteq> l"
      then show "set (addrs ((sh(i := t')) k)) \<inter> set (addrs ((sh(i := t')) l)) = {}"
        using fresh[of k] fresh[of l] inv_disjoint[OF inv, of k l] by auto
    next
      fix k
      assume "queues ?w' k = None"
      then show "(sh(i := t')) k = Null"
        using inv_no_queue[OF inv, of k] by (cases "k = i") simp_all
    next
      fix k q'
      assume "queues ?w' k = Some q'"
      then show "root q' = root_of ((sh(i := t')) k)
          \<and> cnt q' = length (addrs ((sh(i := t')) k)) \<and> cmp q' = c"
        using inv_queue[OF inv, of k q'] oq same_data_length[OF sd]
        by (cases "k = i") auto
    qed
    with res sd show ?thesis
      by (intro disjI2 exI[of _ ?w'] exI[of _ t']) simp
  qed
qed

lemma construct_returns:
  assumes inv: "world_inv c R w sh" and q: "queues w i = None"
  shows "construct c i w =
           Some (Ok () (w\<lparr>queues := (queues w)(i \<mapsto> \<lparr>root = None, cnt = 0, cmp = c\<rparr>)\<rparr>))"
    and "world_inv c R (w\<lparr>queues := (queues w)(i \<mapsto> \<lparr>root = None, cnt = 0, cmp = c\<rparr>)\<rparr>) sh"
proof -
  show "construct c i w =
           Some (Ok () (w\<lparr>queues := (queues w)(i \<mapsto> \<lparr>root = None, cnt = 0, cmp = c\<rparr>)\<rparr>))"
    using q by (simp add: construct_def)
  have "world_inv c R (w\<lparr>queues := (queues w)(i \<mapsto> \<lparr>root = None, cnt = 0, cmp = c\<rparr>)\<rparr>)
      (sh(i := Null))"
    by (rule inv_replace[OF inv, where q = "\<lparr>root = None, cnt = 0, cmp = c\<rparr>"]) simp_all
  moreover have "sh(i := Null) = sh"
    using inv_no_queue[OF inv q] by auto
  ultimately show "world_inv c R
      (w\<lparr>queues := (queues w)(i \<mapsto> \<lparr>root = None, cnt = 0, cmp = c\<rparr>)\<rparr>) sh"
    by simp
qed

section \<open>Every reachable state satisfies the invariant\<close>

lemma top_q_state: "top_q i w = Some r \<Longrightarrow> after r = w"
  by (auto simp: top_q_def split: bind_splits if_splits)

lemma perform_inv:
  assumes su: "suits c R" and inv: "world_inv c R w sh" and p: "perform c x w = Some w'"
  shows "\<exists>sh'. world_inv c R w' sh'"
proof (cases x)
  case (Construct i)
  with p have "queues w i = None"
    by (cases "queues w i") (simp_all add: construct_def)
  from construct_returns[OF inv this] p Construct show ?thesis
    by (intro exI[of _ sh]) auto
next
  case (Copy i j)
  with p have qi: "queues w i = None"
    by (cases "queues w i") (simp_all add: copy_def)
  with p Copy obtain ot where ot: "queues w j = Some ot"
    by (cases "queues w j") (simp_all add: copy_def)
  from copy_inv[OF inv qi ot] show ?thesis
  proof (elim disjE exE conjE)
    fix w1 assume "copy i j w = Some (Throw bad_alloc w1)" and "world_inv c R w1 sh"
    with p Copy show ?thesis
      by (intro exI[of _ sh]) simp
  next
    fix w1 t' assume "copy i j w = Some (Ok () w1)" and "world_inv c R w1 (sh(i := t'))"
    with p Copy show ?thesis
      by (intro exI[of _ "sh(i := t')"]) simp
  qed
next
  case (Destruct i)
  with p obtain q where q: "queues w i = Some q"
    by (cases "queues w i") (simp_all add: destruct_def)
  from destruct_returns[OF inv q] p Destruct show ?thesis
    by (intro exI[of _ "sh(i := Null)"]) auto
next
  case (Assign i j)
  show ?thesis
  proof (cases "i = j")
    case True
    with p Assign inv show ?thesis
      by (intro exI[of _ sh]) (simp add: assign_def)
  next
    case False
    with p Assign obtain q where q: "queues w i = Some q"
      by (cases "queues w i") (simp_all add: assign_def)
    with p Assign False obtain ot where ot: "queues w j = Some ot"
      by (cases "queues w j") (simp_all add: assign_def)
    from assign_inv[OF inv False q ot] show ?thesis
    proof (elim disjE exE conjE)
      fix w1 assume "assign i j w = Some (Throw bad_alloc w1)" and "world_inv c R w1 sh"
      with p Assign show ?thesis
        by (intro exI[of _ sh]) simp
    next
      fix w1 t' assume "assign i j w = Some (Ok () w1)" and "world_inv c R w1 (sh(i := t'))"
      with p Assign show ?thesis
        by (intro exI[of _ "sh(i := t')"]) simp
    qed
  qed
next
  case (Push i e)
  with p obtain q where q: "queues w i = Some q"
    by (cases "queues w i") (simp_all add: push_def)
  show ?thesis
  proof (cases "free (mem w)")
    case Nil
    from push_no_memory[OF q Nil] p Push inv show ?thesis
      by (intro exI[of _ sh]) simp
  next
    case (Cons n fs)
    show ?thesis
    proof (cases "meld_sh c (sh i) (Cell n e 1 Null Null)")
      case None
      from push_compare_throws[OF inv q Cons None] p Push inv show ?thesis
        by (intro exI[of _ sh]) simp
    next
      case (Some t)
      from push_returns[OF su inv q Cons Some] p Push show ?thesis
        by (intro exI[of _ "sh(i := t)"]) auto
    qed
  qed
next
  case (Pop i)
  with p obtain q where q: "queues w i = Some q"
    by (cases "queues w i") (simp_all add: pop_def empty_q_def)
  show ?thesis
  proof (cases "cnt q = 0")
    case True
    from pop_empty[OF q True] p Pop inv show ?thesis
      by (intro exI[of _ sh]) simp
  next
    case False
    from inv_nonempty[OF inv q False] obtain a v d l r where sh: "sh i = Cell a v d l r"
      by (elim exE)
    show ?thesis
    proof (cases "meld_sh c l r")
      case None
      from pop_compare_throws[OF inv q sh None] p Pop inv show ?thesis
        by (intro exI[of _ sh]) simp
    next
      case (Some t)
      from pop_returns[OF su inv q sh Some] p Pop show ?thesis
        by (intro exI[of _ "sh(i := t)"]) auto
    qed
  qed
next
  case (Merge i j)
  show ?thesis
  proof (cases "i = j")
    case True
    with p Merge inv show ?thesis
      by (intro exI[of _ sh]) (simp add: merge_def)
  next
    case False
    with p Merge obtain q where q: "queues w i = Some q"
      by (cases "queues w i") (simp_all add: merge_def)
    with p Merge False obtain ot where ot: "queues w j = Some ot"
      by (cases "queues w j") (simp_all add: merge_def)
    show ?thesis
    proof (cases "meld_sh c (sh i) (sh j)")
      case None
      from merge_compare_throws[OF inv False q ot None] p Merge inv show ?thesis
        by (intro exI[of _ sh]) simp
    next
      case (Some t)
      from merge_returns[OF su inv False q ot Some] p Merge show ?thesis
        by (intro exI[of _ "sh(i := t, j := Null)"]) auto
    qed
  qed
next
  case (Top i)
  with p obtain r where r: "top_q i w = Some r" and "w' = after r"
    by (cases "top_q i w") simp_all
  with top_q_state[OF r] inv show ?thesis
    by (intro exI[of _ sh]) simp
qed

lemma run_inv:
  "suits c R \<Longrightarrow> world_inv c R w sh \<Longrightarrow> run c xs w = Some w' \<Longrightarrow> \<exists>sh'. world_inv c R w' sh'"
proof (induction xs arbitrary: w sh)
  case Nil
  then show ?case
    by (intro exI[of _ sh]) simp
next
  case (Cons x xs)
  from Cons.prems(3) obtain w1 where p: "perform c x w = Some w1" and r: "run c xs w1 = Some w'"
    by (cases "perform c x w") simp_all
  from perform_inv[OF Cons.prems(1,2) p] obtain sh1 where "world_inv c R w1 sh1"
    by (elim exE)
  from Cons.IH[OF Cons.prems(1) this r] show ?case .
qed

lemma reachable_inv:
  assumes "suits c R" and "distinct fs" and "run c xs (start fs) = Some w"
  shows "\<exists>sh. world_inv c R w sh"
  using run_inv[OF assms(1) start_inv[OF assms(2)] assms(3)] .

lemma reach_in_addrs:
  "reach cs x p \<Longrightarrow> stored cs t \<Longrightarrow> x = root_of t \<Longrightarrow> p \<in> set (addrs t)"
proof (induction arbitrary: t rule: reach.induct)
  case (at_root p n)
  then show ?case
    by (cases t) simp_all
next
  case (in_left p n q)
  from in_left.prems obtain v d l r where t: "t = Cell p v d l r"
    by (cases t) simp_all
  with in_left.prems in_left.hyps(1) have "stored cs l" and "left n = root_of l"
    by auto
  from in_left.IH[OF this] t show ?case
    by simp
next
  case (in_right p n q)
  from in_right.prems obtain v d l r where t: "t = Cell p v d l r"
    by (cases t) simp_all
  with in_right.prems in_right.hyps(1) have "stored cs r" and "right n = root_of r"
    by auto
  from in_right.IH[OF this] t show ?case
    by simp
qed

lemma addrs_reach: "stored cs t \<Longrightarrow> p \<in> set (addrs t) \<Longrightarrow> reach cs (root_of t) p"
proof (induction t)
  case Null
  then show ?case
    by simp
next
  case (Cell a v d l r)
  let ?n = "\<lparr>val = v, left = root_of l, right = root_of r, dist = d\<rparr>"
  from Cell.prems(1) have ca: "cs a = Some ?n" and sl: "stored cs l" and sr: "stored cs r"
    by simp_all
  from Cell.prems(2) consider "p = a" | "p \<in> set (addrs l)" | "p \<in> set (addrs r)"
    by auto
  then show ?case
  proof cases
    case 1
    with reach.at_root[of cs a ?n, OF ca] show ?thesis
      by simp
  next
    case 2
    from Cell.IH(1)[OF sl 2] have "reach cs (left ?n) p"
      by simp
    from reach.in_left[of cs a ?n, OF ca this] show ?thesis
      by simp
  next
    case 3
    from Cell.IH(2)[OF sr 3] have "reach cs (right ?n) p"
      by simp
    from reach.in_right[of cs a ?n, OF ca this] show ?thesis
      by simp
  qed
qed

lemma reach_set: "stored cs t \<Longrightarrow> {p. reach cs (root_of t) p} = set (addrs t)"
  using reach_in_addrs[of cs "root_of t" _ t] addrs_reach[of cs t] by auto

lemma stored_val:
  "stored cs t \<Longrightarrow> p \<in> set (addrs t) \<Longrightarrow> cs p = Some n \<Longrightarrow> distinct (addrs t)
     \<Longrightarrow> val n \<in># elems t"
proof (induction t)
  case Null
  then show ?case
    by simp
next
  case (Cell a v d l r)
  from Cell.prems(2) consider "p = a" | "p \<in> set (addrs l)" | "p \<in> set (addrs r)"
    by auto
  then show ?case
  proof cases
    case 1
    with Cell.prems(1,3) show ?thesis
      by auto
  next
    case 2
    with Cell.IH(1)[of] Cell.prems show ?thesis
      by simp
  next
    case 3
    with Cell.IH(2)[of] Cell.prems show ?thesis
      by simp
  qed
qed

lemma elems_stored:
  "stored cs t \<Longrightarrow> x \<in># elems t \<Longrightarrow> \<exists>p n. p \<in> set (addrs t) \<and> cs p = Some n \<and> val n = x"
proof (induction t)
  case Null
  then show ?case
    by simp
next
  case (Cell a v d l r)
  from Cell.prems(2) consider "x = v" | "x \<in># elems l" | "x \<in># elems r"
    by auto
  then show ?case
  proof cases
    case 1
    with Cell.prems(1) show ?thesis
      by (intro exI[of _ a]) simp
  next
    case 2
    with Cell.IH(1) Cell.prems(1) obtain p n where "p \<in> set (addrs l)" "cs p = Some n" "val n = x"
      by auto
    then show ?thesis
      by (intro exI[of _ p] exI[of _ n]) simp
  next
    case 3
    with Cell.IH(2) Cell.prems(1) obtain p n where "p \<in> set (addrs r)" "cs p = Some n" "val n = x"
      by auto
    then show ?thesis
      by (intro exI[of _ p] exI[of _ n]) simp
  qed
qed

lemma leftist_node:
  "stored (cells h) t \<Longrightarrow> leftist t \<Longrightarrow> p \<in> set (addrs t) \<Longrightarrow> distinct (addrs t)
     \<Longrightarrow> \<exists>n dl dr. cells h p = Some n \<and> npl h (left n) = Some dl \<and> npl h (right n) = Some dr
           \<and> dr \<le> dl \<and> dist n = dr + 1"
proof (induction t)
  case Null
  then show ?case
    by simp
next
  case (Cell a v d l r)
  let ?n = "\<lparr>val = v, left = root_of l, right = root_of r, dist = d\<rparr>"
  from Cell.prems(1) have ca: "cells h a = Some ?n" and sl: "stored (cells h) l"
    and sr: "stored (cells h) r"
    by simp_all
  from Cell.prems(3) consider "p = a" | "p \<in> set (addrs l)" | "p \<in> set (addrs r)"
    by auto
  then show ?case
  proof cases
    case 1
    from npl_stored[OF sl] npl_stored[OF sr] ca Cell.prems(2) 1 show ?thesis
      by (intro exI[of _ ?n] exI[of _ "rk l"] exI[of _ "rk r"]) simp
  next
    case 2
    with Cell.IH(1)[OF sl] Cell.prems(2,4) show ?thesis
      by simp
  next
    case 3
    with Cell.IH(2)[OF sr] Cell.prems(2,4) show ?thesis
      by simp
  qed
qed

lemma scenario_world_reachable:
  "run int_less [Construct 0, Push 0 5, Push 0 3, Push 0 8, Push 0 1]
     (start [10, 11, 12, 13, 14, 15]) = Some scenario_world"
  by (simp add: unfold_ops unfold_rec scenario_world_def int_less_def fun_upd_twist
      eval_nat_numeral)

lemma two_queues_reachable:
  "run int_less [Construct 0, Push 0 5, Push 0 3, Construct 1, Push 1 10, Push 1 2]
     (start [10, 11, 12, 13, 14, 15]) = Some two_queues"
  by (simp add: unfold_ops unfold_rec two_queues_def int_less_def fun_upd_twist
      eval_nat_numeral)

lemma fresh_world_reachable:
  "run int_less [Construct 0] (start [10, 11, 12, 13]) = Some fresh_world"
  by (simp add: unfold_ops fresh_world_def)

lemma int_less_order: "strict_weak_order ((<) :: int \<Rightarrow> int \<Rightarrow> bool)"
  by (auto simp: strict_weak_order_def)

lemma int_less_agrees: "\<forall>x y b. int_less x y = Some b \<longrightarrow> b = (x < y)"
  by (simp add: int_less_def)

section \<open>Comparators\<close>

lemma order_suits:
  assumes "strict_weak_order lt" and "\<forall>x y b. c x y = Some b \<longrightarrow> b = lt x y"
  shows "suits c (\<lambda>v x. \<not> lt v x)"
proof -
  from assms(1) have irr: "\<And>x. \<not> lt x x"
    and tr: "\<And>x y z. lt x y \<Longrightarrow> lt y z \<Longrightarrow> lt x z"
    and eq: "\<And>x y z. \<not> lt x y \<Longrightarrow> \<not> lt y x \<Longrightarrow> \<not> lt y z \<Longrightarrow> \<not> lt z y
                \<Longrightarrow> \<not> lt x z"
    unfolding strict_weak_order_def by blast+
  have neg: "\<And>x y z. \<not> lt x y \<Longrightarrow> \<not> lt y z \<Longrightarrow> \<not> lt x z"
  proof
    fix x y z
    assume xy: "\<not> lt x y" and yz: "\<not> lt y z" and xz: "lt x z"
    have yx: "\<not> lt y x"
      using tr[of y x z] xz yz by blast
    have zy: "\<not> lt z y"
      using tr[of x z y] xz xy by blast
    from eq[OF xy yx yz zy] xz show False
      by simp
  qed
  have asym: "\<And>x y. lt x y \<Longrightarrow> \<not> lt y x"
    using tr irr by blast
  show ?thesis
    unfolding suits_def
  proof (intro conjI allI impI)
    fix x y z assume "\<not> lt x y" and "\<not> lt y z"
    then show "\<not> lt x z"
      by (rule neg)
  next
    fix x y assume "c x y = Some True"
    with assms(2) have "lt x y"
      by auto
    then show "\<not> lt y x"
      by (rule asym)
  next
    fix x y assume "c x y = Some False"
    with assms(2) show "\<not> lt x y"
      by auto
  qed
qed

lemma any_suits: "suits c (\<lambda>v x. True)"
  by (simp add: suits_def)

section \<open>The claims about reachable states\<close>

text \<open>
  In a state reached from \<open>start fs\<close> by public calls, every queue has its tree: the
  invariant of the state, seen from one handle.
\<close>

lemma reachable_tree:
  assumes "suits c R" and "distinct fs" and "run c xs (start fs) = Some w"
    and "queues w i = Some q"
  shows "\<exists>t. root q = root_of t \<and> stored (cells (mem w)) t \<and> distinct (addrs t)
           \<and> cnt q = length (addrs t) \<and> leftist t \<and> heap_ordered R t"
proof -
  from reachable_inv[OF assms(1,2,3)] obtain sh where inv: "world_inv c R w sh"
    by (elim exE)
  from inv_queue[OF inv assms(4)] inv_stored[OF inv, of i] inv_distinct[OF inv, of i]
    inv_leftist[OF inv, of i] inv_ordered[OF inv, of i]
  show ?thesis
    by (intro exI[of _ "sh i"]) simp
qed

text \<open>
  C3. In every state reached by public calls, whether they returned or threw, every node
  \<open>p\<close> that can be reached from a queue's root is live, and with \<open>npl\<close> reading the ranks
  of its children as the code does, the right child's rank is at most the left child's and
  the node's own \<open>dist\<close> is the right child's rank plus one. No assumption is made about
  the comparator.
\<close>

theorem rank_invariants:
  assumes "distinct fs" and "run c xs (start fs) = Some w" and "queues w i = Some q"
    and "reach (cells (mem w)) (root q) p"
  shows "\<exists>n dl dr. cells (mem w) p = Some n
           \<and> npl (mem w) (left n) = Some dl \<and> npl (mem w) (right n) = Some dr
           \<and> dr \<le> dl \<and> dist n = dr + 1"
proof -
  from reachable_tree[OF any_suits assms(1,2,3)] obtain t where r: "root q = root_of t"
    and st: "stored (cells (mem w)) t" and di: "distinct (addrs t)" and le: "leftist t"
    by (elim exE conjE)
  from reach_in_addrs[OF assms(4) st r] have "p \<in> set (addrs t)" .
  from leftist_node[OF st le this di] show ?thesis .
qed

theorem rank_invariants_witness:
  "\<exists>n dl dr. cells (mem scenario_world) 12 = Some n
     \<and> npl (mem scenario_world) (left n) = Some dl
     \<and> npl (mem scenario_world) (right n) = Some dr
     \<and> dr \<le> dl \<and> dist n = dr + 1"
proof -
  have d: "distinct [10, 11, 12, 13, 14, 15 :: nat]"
    by simp
  have q: "queues scenario_world 0 = Some \<lparr>root = Some 12, cnt = 4, cmp = int_less\<rparr>"
    by (simp add: scenario_world_def)
  have "reach (cells (mem scenario_world)) (Some 12) 12"
    by (rule reach.at_root) (simp add: scenario_world_def)
  then have r: "reach (cells (mem scenario_world))
      (root \<lparr>root = Some 12, cnt = 4, cmp = int_less\<rparr>) 12"
    by simp
  from rank_invariants[OF d scenario_world_reachable q r] show ?thesis .
qed

section \<open>What the operations do to the count\<close>

lemma push_Ok_cnt:
  assumes p: "push i e w = Some (Ok u w')" and q: "queues w i = Some q"
  shows "\<exists>r. queues w' i = Some (q\<lparr>root := r, cnt := cnt q + 1\<rparr>)"
proof (cases "new_Node e (mem w)")
  case (Throw y h')
  with p q show ?thesis
    by (simp add: push_def)
next
  case (Ok n h1)
  note n = this
  show ?thesis
  proof (cases "meld (cmp q) (root q) (Some n) h1")
    case None
    with p q n show ?thesis
      by (simp add: push_def)
  next
    case (Some res)
    show ?thesis
    proof (cases res)
      case (Ok r h2)
      with p q n Some have "queues w' i = Some (q\<lparr>root := r, cnt := cnt q + 1\<rparr>)"
        by (auto simp: push_def)
      then show ?thesis
        by (rule exI)
    next
      case (Throw y h')
      with p q n Some show ?thesis
        by (simp add: push_def)
    qed
  qed
qed

lemma pop_Ok_cnt:
  assumes p: "pop i w = Some (Ok u w')" and q: "queues w i = Some q"
  shows "cnt q \<noteq> 0 \<and> (\<exists>r. queues w' i = Some (q\<lparr>root := r, cnt := cnt q - 1\<rparr>))"
proof (cases "cnt q = 0")
  case True
  with p q show ?thesis
    by (simp add: pop_def empty_q_def)
next
  case False
  note ne = this
  show ?thesis
  proof (cases "root q")
    case None
    with p q ne show ?thesis
      by (simp add: pop_def empty_q_def)
  next
    case (Some old)
    note old = this
    show ?thesis
    proof (cases "cells (mem w) old")
      case None
      with p q ne old show ?thesis
        by (simp add: pop_def empty_q_def)
    next
      case (Some n)
      note n = this
      show ?thesis
      proof (cases "meld (cmp q) (left n) (right n) (mem w)")
        case None
        with p q ne old n show ?thesis
          by (simp add: pop_def empty_q_def)
      next
        case (Some res)
        show ?thesis
        proof (cases res)
          case (Ok r h1)
          with p q ne old n Some
          have "queues w' i = Some (q\<lparr>root := r, cnt := cnt q - 1\<rparr>)"
            by (cases "cells h1 old") (auto simp: pop_def empty_q_def)
          then have "\<exists>r. queues w' i = Some (q\<lparr>root := r, cnt := cnt q - 1\<rparr>)"
            by (rule exI)
          with ne show ?thesis
            by simp
        next
          case (Throw y h')
          with p q ne old n Some show ?thesis
            by (simp add: pop_def empty_q_def)
        qed
      qed
    qed
  qed
qed

lemma merge_Ok_cnt:
  assumes p: "merge i j w = Some (Ok u w')" and ne: "i \<noteq> j"
    and q: "queues w i = Some q" and ot: "queues w j = Some ot"
  shows "(\<exists>r. queues w' i = Some (q\<lparr>root := r, cnt := cnt q + cnt ot\<rparr>))
       \<and> queues w' j = Some (ot\<lparr>root := None, cnt := 0\<rparr>)"
proof (cases "meld (cmp q) (root q) (root ot) (mem w)")
  case None
  with p ne q ot show ?thesis
    by (simp add: merge_def)
next
  case (Some res)
  show ?thesis
  proof (cases res)
    case (Ok r h1)
    with p ne q ot Some
    have 1: "queues w' i = Some (q\<lparr>root := r, cnt := cnt q + cnt ot\<rparr>)"
      and 2: "queues w' j = Some (ot\<lparr>root := None, cnt := 0\<rparr>)"
      by (auto simp: merge_def)
    from 1 have "\<exists>r. queues w' i = Some (q\<lparr>root := r, cnt := cnt q + cnt ot\<rparr>)"
      by (rule exI)
    with 2 show ?thesis
      by simp
  next
    case (Throw y h')
    with p ne q ot Some show ?thesis
      by (simp add: merge_def)
  qed
qed

lemma copy_construct_Ok_cnt:
  "copy_construct ot h = Some (Ok tmp h') \<Longrightarrow> cnt tmp = cnt ot \<and> cmp tmp = cmp ot"
  by (auto simp: copy_construct_def split: bind_splits outcome.splits)

lemma copy_Ok_cnt:
  assumes p: "copy j i w = Some (Ok u w')" and q: "queues w i = Some q"
  shows "(\<exists>q'. queues w' j = Some q' \<and> cnt q' = cnt q) \<and> queues w' i = Some q"
proof -
  from p have f: "queues w j = None"
    by (cases "queues w j") (simp_all add: copy_def)
  with q have ne: "i \<noteq> j"
    by auto
  show ?thesis
  proof (cases "copy_construct q (mem w)")
    case None
    with p f q show ?thesis
      by (simp add: copy_def)
  next
    case (Some res)
    show ?thesis
    proof (cases res)
      case (Ok tmp h1)
      with Some have "cnt tmp = cnt q"
        by (simp add: copy_construct_Ok_cnt)
      moreover from p f q Some Ok have "queues w' = (queues w)(j \<mapsto> tmp)"
        by (auto simp: copy_def)
      ultimately show ?thesis
        using q ne by simp
    next
      case (Throw y h')
      with p f q Some show ?thesis
        by (simp add: copy_def)
    qed
  qed
qed

lemma assign_Ok_cnt:
  assumes p: "assign j i w = Some (Ok u w')" and q: "queues w i = Some q"
  shows "(\<exists>q'. queues w' j = Some q' \<and> cnt q' = cnt q) \<and> queues w' i = Some q"
proof (cases "j = i")
  case True
  with p q show ?thesis
    by (simp add: assign_def)
next
  case False
  with p obtain qj where qj: "queues w j = Some qj"
    by (cases "queues w j") (simp_all add: assign_def)
  show ?thesis
  proof (cases "copy_construct q (mem w)")
    case None
    with p False qj q show ?thesis
      by (simp add: assign_def)
  next
    case (Some res)
    show ?thesis
    proof (cases res)
      case (Ok tmp h1)
      with Some have c: "cnt tmp = cnt q"
        by (simp add: copy_construct_Ok_cnt)
      show ?thesis
      proof (cases "destroy (root qj) h1")
        case None
        with p False qj q Some Ok show ?thesis
          by (simp add: assign_def Let_def)
      next
        case (Some h2)
        with p False qj q \<open>copy_construct q (mem w) = Some res\<close> Ok
        have "queues w' = (queues w)(j \<mapsto> qj\<lparr>root := root tmp, cnt := cnt tmp, cmp := cmp q\<rparr>)"
          by (auto simp: assign_def Let_def)
        with c q False show ?thesis
          by simp
      qed
    next
      case (Throw y h')
      with p False qj q Some show ?thesis
        by (simp add: assign_def)
    qed
  qed
qed

lemma run_snoc:
  "run c xs w0 = Some w \<Longrightarrow> perform c x w = Some w' \<Longrightarrow> run c (xs @ [x]) w0 = Some w'"
proof (induction xs arbitrary: w0)
  case Nil
  then show ?case
    by simp
next
  case (Cons y ys)
  from Cons.prems(1) obtain w1 where 1: "perform c y w0 = Some w1" and 2: "run c ys w1 = Some w"
    by (cases "perform c y w0") simp_all
  from Cons.IH[OF 2 Cons.prems(2)] 1 show ?case
    by simp
qed

lemma reachable_size:
  assumes "distinct fs" and "run c xs (start fs) = Some w" and "queues w i = Some q"
  shows "cnt q = card {p. reach (cells (mem w)) (root q) p}"
proof -
  from reachable_tree[OF any_suits assms] obtain t where r: "root q = root_of t"
    and st: "stored (cells (mem w)) t" and di: "distinct (addrs t)"
    and n: "cnt q = length (addrs t)"
    by (elim exE conjE)
  from reach_set[OF st] r have "{p. reach (cells (mem w)) (root q) p} = set (addrs t)"
    by simp
  with distinct_card[OF di] n show ?thesis
    by simp
qed

lemma total_push_returns:
  assumes "distinct fs" and "run c xs (start fs) = Some w" and "queues w i = Some q"
    and tot: "\<forall>x y. c x y \<noteq> None" and fr: "free (mem w) \<noteq> []"
  shows "\<exists>w'. push i e w = Some (Ok () w')"
proof -
  from reachable_inv[OF any_suits assms(1,2)] obtain sh where
    inv: "world_inv c (\<lambda>v x. True) w sh"
    by (elim exE)
  from fr obtain n fs' where f: "free (mem w) = n # fs'"
    by (cases "free (mem w)") simp_all
  from meld_sh_total[OF tot, of "sh i" "Cell n e 1 Null Null"] obtain t where
    m: "meld_sh c (sh i) (Cell n e 1 Null Null) = Some t"
    by auto
  from push_returns[OF any_suits inv assms(3) f m] show ?thesis
    by (elim exE conjE) (rule exI)
qed

lemma total_pop_returns:
  assumes "distinct fs" and "run c xs (start fs) = Some w" and "queues w i = Some q"
    and tot: "\<forall>x y. c x y \<noteq> None" and ne: "cnt q \<noteq> 0"
  shows "\<exists>w'. pop i w = Some (Ok () w')"
proof -
  from reachable_inv[OF any_suits assms(1,2)] obtain sh where
    inv: "world_inv c (\<lambda>v x. True) w sh"
    by (elim exE)
  from inv_nonempty[OF inv assms(3) ne] obtain a v d l r where sh: "sh i = Cell a v d l r"
    by (elim exE)
  from meld_sh_total[OF tot, of l r] obtain t where m: "meld_sh c l r = Some t"
    by auto
  from pop_returns[OF any_suits inv assms(3) sh m] show ?thesis
    by (elim exE conjE) (rule exI)
qed

lemma total_merge_returns:
  assumes "distinct fs" and "run c xs (start fs) = Some w" and "queues w i = Some q"
    and tot: "\<forall>x y. c x y \<noteq> None" and ne: "j \<noteq> i" and ot: "queues w j = Some ot"
  shows "\<exists>w'. merge i j w = Some (Ok () w')"
proof -
  from reachable_inv[OF any_suits assms(1,2)] obtain sh where
    inv: "world_inv c (\<lambda>v x. True) w sh"
    by (elim exE)
  from ne have ne': "i \<noteq> j"
    by simp
  from meld_sh_total[OF tot, of "sh i" "sh j"] obtain t where
    m: "meld_sh c (sh i) (sh j) = Some t"
    by auto
  from merge_returns[OF any_suits inv ne' assms(3) ot m] show ?thesis
    by (elim exE conjE) (rule exI)
qed

text \<open>
  C6. In every state reached by public calls, \<open>size()\<close> of a queue is the number of nodes
  that can be reached from its root. A \<open>push\<close> that returns leaves the count one higher, a
  \<open>pop\<close> that returns found it positive and leaves it one lower, a \<open>merge\<close> that returns
  leaves the receiver with the sum of both counts and the other queue with 0, and a copy
  construction or an assignment that returns gives the target the source's count and leaves
  the source's as it was. After each of them the count is again the number of nodes that
  can be reached from the root. With a comparator that never throws, \<open>push\<close> returns
  whenever the allocator has an address left, \<open>pop\<close> whenever the count is positive, and
  \<open>merge\<close> with another queue always.
\<close>

theorem size_counts_nodes:
  assumes "distinct fs" and "run c xs (start fs) = Some w" and "queues w i = Some q"
  shows "size_q i w = Some (card {p. reach (cells (mem w)) (root q) p})
       \<and> (\<forall>e w'. push i e w = Some (Ok () w') \<longrightarrow>
             size_q i w' = Some (cnt q + 1)
             \<and> (\<exists>q'. queues w' i = Some q'
                   \<and> card {p. reach (cells (mem w')) (root q') p} = cnt q + 1))
       \<and> (\<forall>w'. pop i w = Some (Ok () w') \<longrightarrow>
             cnt q \<noteq> 0 \<and> size_q i w' = Some (cnt q - 1)
             \<and> (\<exists>q'. queues w' i = Some q'
                   \<and> card {p. reach (cells (mem w')) (root q') p} = cnt q - 1))
       \<and> (\<forall>j ot w'. j \<noteq> i \<longrightarrow> queues w j = Some ot \<longrightarrow> merge i j w = Some (Ok () w') \<longrightarrow>
             size_q i w' = Some (cnt q + cnt ot) \<and> size_q j w' = Some 0
             \<and> (\<exists>q'. queues w' i = Some q'
                   \<and> card {p. reach (cells (mem w')) (root q') p} = cnt q + cnt ot))
       \<and> (\<forall>j w'. copy j i w = Some (Ok () w') \<longrightarrow>
             size_q j w' = Some (cnt q) \<and> size_q i w' = Some (cnt q)
             \<and> (\<exists>q'. queues w' j = Some q'
                   \<and> card {p. reach (cells (mem w')) (root q') p} = cnt q))
       \<and> (\<forall>j w'. assign j i w = Some (Ok () w') \<longrightarrow>
             size_q j w' = Some (cnt q) \<and> size_q i w' = Some (cnt q)
             \<and> (\<exists>q'. queues w' j = Some q'
                   \<and> card {p. reach (cells (mem w')) (root q') p} = cnt q))
       \<and> ((\<forall>x y. c x y \<noteq> None) \<longrightarrow>
             (\<forall>e. free (mem w) \<noteq> [] \<longrightarrow> (\<exists>w'. push i e w = Some (Ok () w')))
             \<and> (cnt q \<noteq> 0 \<longrightarrow> (\<exists>w'. pop i w = Some (Ok () w')))
             \<and> (\<forall>j ot. j \<noteq> i \<longrightarrow> queues w j = Some ot \<longrightarrow>
                   (\<exists>w'. merge i j w = Some (Ok () w'))))"
proof (intro conjI allI impI)
  show "size_q i w = Some (card {p. reach (cells (mem w)) (root q) p})"
    using reachable_size[OF assms] assms(3) by (simp add: size_q_def)
next
  fix e w' assume p: "push i e w = Some (Ok () w')"
  from push_Ok_cnt[OF p assms(3)] obtain r where
    q': "queues w' i = Some (q\<lparr>root := r, cnt := cnt q + 1\<rparr>)"
    by (elim exE)
  then show "size_q i w' = Some (cnt q + 1)"
    by (simp add: size_q_def)
  from p have "perform c (Push i e) w = Some w'"
    by simp
  from reachable_size[OF assms(1) run_snoc[OF assms(2) this] q'] q'
  show "\<exists>q'. queues w' i = Some q' \<and> card {p. reach (cells (mem w')) (root q') p} = cnt q + 1"
    by (intro exI[of _ "q\<lparr>root := r, cnt := cnt q + 1\<rparr>"]) simp
next
  fix w' assume p: "pop i w = Some (Ok () w')"
  from pop_Ok_cnt[OF p assms(3)] obtain r where ne: "cnt q \<noteq> 0"
    and q': "queues w' i = Some (q\<lparr>root := r, cnt := cnt q - 1\<rparr>)"
    by (elim exE conjE)
  show "cnt q \<noteq> 0"
    by (rule ne)
  from q' show "size_q i w' = Some (cnt q - 1)"
    by (simp add: size_q_def)
  from p have "perform c (Pop i) w = Some w'"
    by simp
  from reachable_size[OF assms(1) run_snoc[OF assms(2) this] q'] q'
  show "\<exists>q'. queues w' i = Some q' \<and> card {p. reach (cells (mem w')) (root q') p} = cnt q - 1"
    by (intro exI[of _ "q\<lparr>root := r, cnt := cnt q - 1\<rparr>"]) simp
next
  fix j ot w'
  assume ne: "j \<noteq> i" and ot: "queues w j = Some ot" and p: "merge i j w = Some (Ok () w')"
  from ne have ne': "i \<noteq> j"
    by simp
  from merge_Ok_cnt[OF p ne' assms(3) ot] obtain r where
    q': "queues w' i = Some (q\<lparr>root := r, cnt := cnt q + cnt ot\<rparr>)"
    and o': "queues w' j = Some (ot\<lparr>root := None, cnt := 0\<rparr>)"
    by (elim exE conjE)
  from q' show "size_q i w' = Some (cnt q + cnt ot)"
    by (simp add: size_q_def)
  from o' show "size_q j w' = Some 0"
    by (simp add: size_q_def)
  from p have "perform c (Merge i j) w = Some w'"
    by simp
  from reachable_size[OF assms(1) run_snoc[OF assms(2) this] q'] q'
  show "\<exists>q'. queues w' i = Some q'
      \<and> card {p. reach (cells (mem w')) (root q') p} = cnt q + cnt ot"
    by (intro exI[of _ "q\<lparr>root := r, cnt := cnt q + cnt ot\<rparr>"]) simp
next
  fix j w' assume p: "copy j i w = Some (Ok () w')"
  from copy_Ok_cnt[OF p assms(3)] obtain q' where q': "queues w' j = Some q'"
    and c: "cnt q' = cnt q" and s: "queues w' i = Some q"
    by (elim exE conjE)
  from q' c show "size_q j w' = Some (cnt q)"
    by (simp add: size_q_def)
  from s show "size_q i w' = Some (cnt q)"
    by (simp add: size_q_def)
  from p have "perform c (Copy j i) w = Some w'"
    by simp
  from reachable_size[OF assms(1) run_snoc[OF assms(2) this] q'] q' c
  show "\<exists>q'. queues w' j = Some q' \<and> card {p. reach (cells (mem w')) (root q') p} = cnt q"
    by (intro exI[of _ q']) simp
next
  fix j w' assume p: "assign j i w = Some (Ok () w')"
  from assign_Ok_cnt[OF p assms(3)] obtain q' where q': "queues w' j = Some q'"
    and c: "cnt q' = cnt q" and s: "queues w' i = Some q"
    by (elim exE conjE)
  from q' c show "size_q j w' = Some (cnt q)"
    by (simp add: size_q_def)
  from s show "size_q i w' = Some (cnt q)"
    by (simp add: size_q_def)
  from p have "perform c (Assign j i) w = Some w'"
    by simp
  from reachable_size[OF assms(1) run_snoc[OF assms(2) this] q'] q' c
  show "\<exists>q'. queues w' j = Some q' \<and> card {p. reach (cells (mem w')) (root q') p} = cnt q"
    by (intro exI[of _ q']) simp
next
  fix e assume "\<forall>x y. c x y \<noteq> None" and "free (mem w) \<noteq> []"
  with assms show "\<exists>w'. push i e w = Some (Ok () w')"
    by (rule total_push_returns)
next
  assume "\<forall>x y. c x y \<noteq> None" and "cnt q \<noteq> 0"
  with assms show "\<exists>w'. pop i w = Some (Ok () w')"
    by (rule total_pop_returns)
next
  fix j ot assume "\<forall>x y. c x y \<noteq> None" and "j \<noteq> i" and "queues w j = Some ot"
  with assms show "\<exists>w'. merge i j w = Some (Ok () w')"
    by (rule total_merge_returns)
qed

theorem size_counts_nodes_witness:
  "size_q 0 scenario_world = Some 4
   \<and> card {p. reach (cells (mem scenario_world)) (Some 12) p} = 4
   \<and> (\<exists>w'. push 0 7 scenario_world = Some (Ok () w') \<and> size_q 0 w' = Some 5)
   \<and> (\<exists>w'. pop 0 scenario_world = Some (Ok () w') \<and> size_q 0 w' = Some 3)
   \<and> (\<exists>w'. merge 0 1 two_queues = Some (Ok () w')
          \<and> size_q 0 w' = Some 4 \<and> size_q 1 w' = Some 0)
   \<and> (\<exists>w'. copy 2 0 two_queues = Some (Ok () w')
          \<and> size_q 2 w' = Some 2 \<and> size_q 0 w' = Some 2)
   \<and> (\<exists>w'. assign 1 0 two_queues = Some (Ok () w')
          \<and> size_q 1 w' = Some 2 \<and> size_q 0 w' = Some 2)"
proof -
  have d: "distinct [10, 11, 12, 13, 14, 15 :: nat]"
    by simp
  have q: "queues scenario_world 0 = Some \<lparr>root = Some 12, cnt = 4, cmp = int_less\<rparr>"
    by (simp add: scenario_world_def)
  have q0: "queues two_queues 0 = Some \<lparr>root = Some 10, cnt = 2, cmp = int_less\<rparr>"
    and q1: "queues two_queues 1 = Some \<lparr>root = Some 12, cnt = 2, cmp = int_less\<rparr>"
    by (simp_all add: two_queues_def)
  note s = size_counts_nodes[OF d scenario_world_reachable q]
  note t = size_counts_nodes[OF d two_queues_reachable q0]
  have 1: "size_q 0 scenario_world = Some 4"
    by (simp add: size_q_def scenario_world_def)
  with s[THEN conjunct1] have 2: "card {p. reach (cells (mem scenario_world)) (Some 12) p} = 4"
    by simp
  obtain w1 where w1: "push 0 7 scenario_world = Some (Ok () w1)"
    by (simp add: unfold_ops unfold_rec scenario_world_def int_less_def)
  obtain w2 where w2: "pop 0 scenario_world = Some (Ok () w2)"
    by (simp add: unfold_ops unfold_rec scenario_world_def int_less_def)
  obtain w3 where w3: "merge 0 1 two_queues = Some (Ok () w3)"
    by (simp add: unfold_ops unfold_rec two_queues_def int_less_def)
  obtain w4 where w4: "copy 2 0 two_queues = Some (Ok () w4)"
    by (simp add: unfold_ops unfold_rec two_queues_def int_less_def)
  obtain w5 where w5: "assign 1 0 two_queues = Some (Ok () w5)"
    by (simp add: unfold_ops unfold_rec two_queues_def int_less_def)
  note s_push = s[THEN conjunct2, THEN conjunct1, rule_format]
    and s_pop = s[THEN conjunct2, THEN conjunct2, THEN conjunct1, rule_format]
    and t_merge = t[THEN conjunct2, THEN conjunct2, THEN conjunct2, THEN conjunct1, rule_format]
    and t_copy = t[THEN conjunct2, THEN conjunct2, THEN conjunct2, THEN conjunct2,
        THEN conjunct1, rule_format]
    and t_assign = t[THEN conjunct2, THEN conjunct2, THEN conjunct2, THEN conjunct2,
        THEN conjunct2, THEN conjunct1, rule_format]
  from s_push[OF w1, THEN conjunct1] have 3: "size_q 0 w1 = Some 5"
    by simp
  from s_pop[OF w2, THEN conjunct2, THEN conjunct1] have 4: "size_q 0 w2 = Some 3"
    by simp
  have ne: "(1::nat) \<noteq> 0"
    by simp
  note m = t_merge[OF ne q1 w3]
  from m[THEN conjunct1] have 5: "size_q 0 w3 = Some 4"
    by simp
  note m2 = m[THEN conjunct2, THEN conjunct1]
  note cp = t_copy[OF w4]
  from cp[THEN conjunct1] have 6: "size_q 2 w4 = Some 2"
    by simp
  from cp[THEN conjunct2, THEN conjunct1] have c2: "size_q 0 w4 = Some 2"
    by simp
  note asg = t_assign[OF w5]
  from asg[THEN conjunct1] have 7: "size_q 1 w5 = Some 2"
    by simp
  from asg[THEN conjunct2, THEN conjunct1] have a2: "size_q 0 w5 = Some 2"
    by simp
  from w1 3 have A: "\<exists>w'. push 0 7 scenario_world = Some (Ok () w') \<and> size_q 0 w' = Some 5"
    by (intro exI[of _ w1] conjI)
  from w2 4 have B: "\<exists>w'. pop 0 scenario_world = Some (Ok () w') \<and> size_q 0 w' = Some 3"
    by (intro exI[of _ w2] conjI)
  from w3 5 m2 have C: "\<exists>w'. merge 0 1 two_queues = Some (Ok () w')
      \<and> size_q 0 w' = Some 4 \<and> size_q 1 w' = Some 0"
    by (intro exI[of _ w3] conjI)
  from w4 6 c2 have D: "\<exists>w'. copy 2 0 two_queues = Some (Ok () w')
      \<and> size_q 2 w' = Some 2 \<and> size_q 0 w' = Some 2"
    by (intro exI[of _ w4] conjI)
  from w5 7 a2 have E: "\<exists>w'. assign 1 0 two_queues = Some (Ok () w')
      \<and> size_q 1 w' = Some 2 \<and> size_q 0 w' = Some 2"
    by (intro exI[of _ w5] conjI)
  from 1 2 A B C D E show ?thesis
    by (intro conjI)
qed

text \<open>
  C1. Let the comparator answer as a strict weak order \<open>lt\<close> does whenever it answers at all
  (it may throw). In every state reached by public calls, \<open>top()\<close> of a queue with
  \<open>size() > 0\<close> returns without changing the state; what it returns is the value of a node
  of the queue, and it is not less than the value of any node of the queue. That is more
  than the claim's wording asks, which only excludes an element \<open>x\<close> with \<open>lt m x\<close> and not
  \<open>lt x m\<close>.
\<close>

theorem top_is_maximum:
  assumes "strict_weak_order lt" and "\<forall>x y b. c x y = Some b \<longrightarrow> b = lt x y"
    and "distinct fs" and "run c xs (start fs) = Some w" and "queues w i = Some q"
    and "cnt q \<noteq> 0"
  shows "\<exists>m. top_q i w = Some (Ok m w)
           \<and> (\<exists>p n. reach (cells (mem w)) (root q) p \<and> cells (mem w) p = Some n \<and> val n = m)
           \<and> (\<forall>p n. reach (cells (mem w)) (root q) p \<longrightarrow> cells (mem w) p = Some n
                  \<longrightarrow> \<not> lt m (val n))"
proof -
  let ?R = "\<lambda>v x. \<not> lt v x"
  note su = order_suits[OF assms(1,2)]
  from reachable_inv[OF su assms(3,4)] obtain sh where inv: "world_inv c ?R w sh"
    by (elim exE)
  from inv_nonempty[OF inv assms(5,6)] obtain a v d l r where sh: "sh i = Cell a v d l r"
    by (elim exE)
  note st = inv_stored[OF inv, of i] and di = inv_distinct[OF inv, of i]
    and rq = inv_queue(1)[OF inv assms(5)]
  from assms(1) have irr: "\<not> lt v v"
    by (simp add: strict_weak_order_def)
  have top: "top_q i w = Some (Ok v w)"
    by (rule top_q_returns[OF inv assms(5) sh])
  from st sh have ca: "cells (mem w) a = Some \<lparr>val = v, left = root_of l, right = root_of r, dist = d\<rparr>"
    by simp
  have "reach (cells (mem w)) (root q) a"
    using reach.at_root[of "cells (mem w)" a, OF ca] rq sh by simp
  with ca have among: "\<exists>p n. reach (cells (mem w)) (root q) p \<and> cells (mem w) p = Some n \<and> val n = v"
    by (intro exI[of _ a] exI[of _ "\<lparr>val = v, left = root_of l, right = root_of r, dist = d\<rparr>"])
      simp
  have below: "\<forall>x \<in># elems (sh i). \<not> lt v x"
    using inv_ordered[OF inv, of i] sh irr by auto
  have "\<forall>p n. reach (cells (mem w)) (root q) p \<longrightarrow> cells (mem w) p = Some n \<longrightarrow> \<not> lt v (val n)"
  proof (intro allI impI)
    fix p n
    assume "reach (cells (mem w)) (root q) p" and cp: "cells (mem w) p = Some n"
    from reach_in_addrs[OF this(1) st rq] have "p \<in> set (addrs (sh i))" .
    from stored_val[OF st this cp di] below show "\<not> lt v (val n)"
      by simp
  qed
  with top among show ?thesis
    by (intro exI[of _ v]) simp
qed

theorem top_is_maximum_witness:
  "top_q 0 scenario_world = Some (Ok 8 scenario_world)
   \<and> \<not> 8 < val \<lparr>val = 5 :: int, left = Some 11, right = None, dist = 1\<rparr>"
proof -
  have d: "distinct [10, 11, 12, 13, 14, 15 :: nat]"
    by simp
  have q: "queues scenario_world 0 = Some \<lparr>root = Some 12, cnt = 4, cmp = int_less\<rparr>"
    by (simp add: scenario_world_def)
  have n: "cnt \<lparr>root = Some 12, cnt = 4, cmp = int_less\<rparr> \<noteq> 0"
    by simp
  have t: "top_q 0 scenario_world = Some (Ok 8 scenario_world)"
    by (simp add: top_q_def empty_q_def scenario_world_def)
  have c12: "cells (mem scenario_world) 12
      = Some \<lparr>val = 8, left = Some 10, right = Some 13, dist = 2\<rparr>"
    and c10: "cells (mem scenario_world) 10
      = Some \<lparr>val = 5, left = Some 11, right = None, dist = 1\<rparr>"
    by (simp_all add: scenario_world_def)
  have "reach (cells (mem scenario_world)) (Some 10) 10"
    using c10 by (rule reach.at_root)
  then have "reach (cells (mem scenario_world))
      (left \<lparr>val = 8 :: int, left = Some 10, right = Some 13, dist = 2\<rparr>) 10"
    by simp
  with c12 have "reach (cells (mem scenario_world)) (Some 12) 10"
    by (rule reach.in_left)
  then have r: "reach (cells (mem scenario_world))
      (root \<lparr>root = Some 12, cnt = 4, cmp = int_less\<rparr>) 10"
    by simp
  from top_is_maximum[OF int_less_order int_less_agrees d scenario_world_reachable q n] t r c10
  show ?thesis
    by auto
qed

section \<open>Merging two queues\<close>

lemma reach_val:
  assumes "stored cs t" and "distinct (addrs t)" and "reach cs (root_of t) p"
    and "cs p = Some n"
  shows "val n \<in># elems t"
  using stored_val[OF assms(1) reach_in_addrs[OF assms(3,1) refl] assms(4,2)] .

lemma elems_reach:
  assumes "stored cs t" and "x \<in># elems t"
  shows "\<exists>p n. reach cs (root_of t) p \<and> cs p = Some n \<and> val n = x"
proof -
  from elems_stored[OF assms] obtain p n where "p \<in> set (addrs t)" and "cs p = Some n"
    and "val n = x"
    by (elim exE conjE)
  with addrs_reach[OF assms(1), of p] show ?thesis
    by (intro exI[of _ p] exI[of _ n]) simp
qed

text \<open>
  C4. Let the comparator answer as a strict weak order \<open>lt\<close> does whenever it answers. In a
  reachable state, \<open>merge\<close> between two different handles either throws what the
  comparator threw, with the whole state as it was (so the other queue is not cleared), or
  returns; and it returns if the comparator never throws. When it returns, the receiver's
  size is the sum of the two sizes, the other queue has no root and count 0, and, unless
  both were empty, \<open>top()\<close> of the receiver returns the value of a node that was in one of
  the two queues, not less than the value of any node that was in either.
\<close>

theorem merge_postcondition:
  assumes "strict_weak_order lt" and "\<forall>x y b. c x y = Some b \<longrightarrow> b = lt x y"
    and "distinct fs" and "run c xs (start fs) = Some w"
    and "i \<noteq> j" and "queues w i = Some q1" and "queues w j = Some q2"
  shows "(merge i j w = Some (Throw compare_threw w)
          \<or> (\<exists>w'. merge i j w = Some (Ok () w')
                \<and> size_q i w' = Some (cnt q1 + cnt q2)
                \<and> empty_q j w' = Some True
                \<and> queues w' j = Some (q2\<lparr>root := None, cnt := 0\<rparr>)
                \<and> (cnt q1 + cnt q2 = 0
                    \<or> (\<exists>m. top_q i w' = Some (Ok m w')
                          \<and> (\<exists>p n. (reach (cells (mem w)) (root q1) p
                                      \<or> reach (cells (mem w)) (root q2) p)
                                   \<and> cells (mem w) p = Some n \<and> val n = m)
                          \<and> (\<forall>p n. (reach (cells (mem w)) (root q1) p
                                      \<or> reach (cells (mem w)) (root q2) p)
                                   \<longrightarrow> cells (mem w) p = Some n \<longrightarrow> \<not> lt m (val n))))))
       \<and> ((\<forall>x y. c x y \<noteq> None) \<longrightarrow> (\<exists>w'. merge i j w = Some (Ok () w')))"
proof -
  let ?R = "\<lambda>v x. \<not> lt v x"
  let ?cs = "cells (mem w)"
  note su = order_suits[OF assms(1,2)]
  from reachable_inv[OF su assms(3,4)] obtain sh where inv: "world_inv c ?R w sh"
    by (elim exE)
  note ne = assms(5) and q1 = assms(6) and q2 = assms(7)
  note r1 = inv_queue[OF inv q1] and r2 = inv_queue[OF inv q2]
  show ?thesis
  proof (cases "meld_sh c (sh i) (sh j)")
    case None
    have "merge i j w = Some (Throw compare_threw w)"
      by (rule merge_compare_throws[OF inv ne q1 q2 None])
    moreover have "\<not> (\<forall>x y. c x y \<noteq> None)"
    proof
      assume "\<forall>x y. c x y \<noteq> None"
      from meld_sh_total[OF this, of "sh i" "sh j"] None show False
        by simp
    qed
    ultimately show ?thesis
      by simp
  next
    case (Some t)
    from merge_returns[OF su inv ne q1 q2 Some] obtain w' where
      res: "merge i j w = Some (Ok () w')"
      and inv': "world_inv c ?R w' (sh(i := t, j := Null))"
      and qs: "queues w' = (queues w)(i \<mapsto> q1\<lparr>root := root_of t, cnt := cnt q1 + cnt q2\<rparr>,
                                     j \<mapsto> q2\<lparr>root := None, cnt := 0\<rparr>)"
      by (elim exE conjE)
    let ?q' = "q1\<lparr>root := root_of t, cnt := cnt q1 + cnt q2\<rparr>"
    from qs ne have qi: "queues w' i = Some ?q'"
      and qj: "queues w' j = Some (q2\<lparr>root := None, cnt := 0\<rparr>)"
      by simp_all
    have size: "size_q i w' = Some (cnt q1 + cnt q2)" and empty: "empty_q j w' = Some True"
      using qi qj by (simp_all add: size_q_def empty_q_def)
    have top: "cnt q1 + cnt q2 = 0
        \<or> (\<exists>m. top_q i w' = Some (Ok m w')
              \<and> (\<exists>p n. (reach ?cs (root q1) p \<or> reach ?cs (root q2) p)
                       \<and> ?cs p = Some n \<and> val n = m)
              \<and> (\<forall>p n. (reach ?cs (root q1) p \<or> reach ?cs (root q2) p)
                       \<longrightarrow> ?cs p = Some n \<longrightarrow> \<not> lt m (val n)))"
    proof (cases "cnt q1 + cnt q2 = 0")
      case True
      then show ?thesis
        by simp
    next
      case False
      then have "cnt ?q' \<noteq> 0"
        by simp
      from inv_nonempty[OF inv' qi this] ne obtain a v d l r where t: "t = Cell a v d l r"
        by auto
      with ne have sh': "(sh(i := t, j := Null)) i = Cell a v d l r"
        by simp
      have tp: "top_q i w' = Some (Ok v w')"
        by (rule top_q_returns[OF inv' qi sh'])
      have el: "elems t = elems (sh i) + elems (sh j)"
        by (rule meld_sh_elems[OF Some])
      from assms(1) have irr: "\<not> lt v v"
        by (simp add: strict_weak_order_def)
      from inv_ordered[OF inv', of i] sh' irr have "\<forall>x \<in># elems t. \<not> lt v x"
        using t by auto
      with el have below: "\<forall>x \<in># elems (sh i) + elems (sh j). \<not> lt v x"
        by simp
      have "v \<in># elems t"
        using t by simp
      with el have "v \<in># elems (sh i) + elems (sh j)"
        by simp
      then consider "v \<in># elems (sh i)" | "v \<in># elems (sh j)"
        by auto
      then have among: "\<exists>p n. (reach ?cs (root q1) p \<or> reach ?cs (root q2) p)
          \<and> ?cs p = Some n \<and> val n = v"
      proof cases
        case 1
        from elems_reach[OF inv_stored[OF inv, of i] 1] r1(1) show ?thesis
          by auto
      next
        case 2
        from elems_reach[OF inv_stored[OF inv, of j] 2] r2(1) show ?thesis
          by auto
      qed
      have "\<forall>p n. (reach ?cs (root q1) p \<or> reach ?cs (root q2) p)
          \<longrightarrow> ?cs p = Some n \<longrightarrow> \<not> lt v (val n)"
      proof (intro allI impI)
        fix p n
        assume re: "reach ?cs (root q1) p \<or> reach ?cs (root q2) p" and cp: "?cs p = Some n"
        from re show "\<not> lt v (val n)"
        proof
          assume "reach ?cs (root q1) p"
          with r1(1) have "reach ?cs (root_of (sh i)) p"
            by simp
          from reach_val[OF inv_stored[OF inv] inv_distinct[OF inv] this cp] below
          show ?thesis
            by simp
        next
          assume "reach ?cs (root q2) p"
          with r2(1) have "reach ?cs (root_of (sh j)) p"
            by simp
          from reach_val[OF inv_stored[OF inv] inv_distinct[OF inv] this cp] below
          show ?thesis
            by simp
        qed
      qed
      with tp among show ?thesis
        by (intro disjI2 exI[of _ v]) simp
    qed
    from res size empty qj top
    have "\<exists>w'. merge i j w = Some (Ok () w')
                \<and> size_q i w' = Some (cnt q1 + cnt q2)
                \<and> empty_q j w' = Some True
                \<and> queues w' j = Some (q2\<lparr>root := None, cnt := 0\<rparr>)
                \<and> (cnt q1 + cnt q2 = 0
                    \<or> (\<exists>m. top_q i w' = Some (Ok m w')
                          \<and> (\<exists>p n. (reach ?cs (root q1) p \<or> reach ?cs (root q2) p)
                                   \<and> ?cs p = Some n \<and> val n = m)
                          \<and> (\<forall>p n. (reach ?cs (root q1) p \<or> reach ?cs (root q2) p)
                                   \<longrightarrow> ?cs p = Some n \<longrightarrow> \<not> lt m (val n))))"
      by (intro exI[of _ w'] conjI)
    moreover from res have "\<exists>w'. merge i j w = Some (Ok () w')"
      by (intro exI[of _ w'])
    ultimately show ?thesis
      by (intro conjI disjI2 impI)
  qed
qed

theorem merge_postcondition_witness:
  "\<exists>w'. merge 0 1 two_queues = Some (Ok () w')
      \<and> size_q 0 w' = Some 4 \<and> empty_q 1 w' = Some True"
proof -
  have d: "distinct [10, 11, 12, 13, 14, 15 :: nat]"
    by simp
  have ne: "(0::nat) \<noteq> 1"
    by simp
  have q0: "queues two_queues 0 = Some \<lparr>root = Some 10, cnt = 2, cmp = int_less\<rparr>"
    and q1: "queues two_queues 1 = Some \<lparr>root = Some 12, cnt = 2, cmp = int_less\<rparr>"
    by (simp_all add: two_queues_def)
  note th = merge_postcondition[OF int_less_order int_less_agrees d two_queues_reachable ne q0 q1]
  have tot: "\<forall>x y. int_less x y \<noteq> None"
    by (simp add: int_less_def)
  from th have "(\<forall>x y. int_less x y \<noteq> None)
      \<longrightarrow> (\<exists>w'. merge 0 1 two_queues = Some (Ok () w'))"
    by (rule conjunct2)
  with tot obtain w0 where w0: "merge 0 1 two_queues = Some (Ok () w0)"
    by (elim impE exE)
  have c: "cnt \<lparr>root = Some 10, cnt = 2, cmp = int_less\<rparr>
      + cnt \<lparr>root = Some 12, cnt = 2, cmp = int_less\<rparr> = 4"
    by simp
  from th[THEN conjunct1] show ?thesis
  proof (rule disjE)
    assume "merge 0 1 two_queues = Some (Throw compare_threw two_queues)"
    with w0 show ?thesis
      by simp
  next
    assume "\<exists>w'. merge 0 1 two_queues = Some (Ok () w')
        \<and> size_q 0 w' = Some (cnt \<lparr>root = Some 10, cnt = 2, cmp = int_less\<rparr>
                                + cnt \<lparr>root = Some 12, cnt = 2, cmp = int_less\<rparr>)
        \<and> empty_q 1 w' = Some True
        \<and> queues w' 1 = Some (\<lparr>root = Some 12, cnt = 2, cmp = int_less\<rparr>
                                 \<lparr>root := None, cnt := 0\<rparr>)
        \<and> (cnt \<lparr>root = Some 10, cnt = 2, cmp = int_less\<rparr>
              + cnt \<lparr>root = Some 12, cnt = 2, cmp = int_less\<rparr> = 0
            \<or> (\<exists>m. top_q 0 w' = Some (Ok m w')
                  \<and> (\<exists>p n. (reach (cells (mem two_queues))
                                (root \<lparr>root = Some 10, cnt = 2, cmp = int_less\<rparr>) p
                              \<or> reach (cells (mem two_queues))
                                  (root \<lparr>root = Some 12, cnt = 2, cmp = int_less\<rparr>) p)
                           \<and> cells (mem two_queues) p = Some n \<and> val n = m)
                  \<and> (\<forall>p n. (reach (cells (mem two_queues))
                                (root \<lparr>root = Some 10, cnt = 2, cmp = int_less\<rparr>) p
                              \<or> reach (cells (mem two_queues))
                                  (root \<lparr>root = Some 12, cnt = 2, cmp = int_less\<rparr>) p)
                           \<longrightarrow> cells (mem two_queues) p = Some n \<longrightarrow> \<not> m < val n)))"
    then obtain w' where "merge 0 1 two_queues = Some (Ok () w')"
      and "size_q 0 w' = Some (cnt \<lparr>root = Some 10, cnt = 2, cmp = int_less\<rparr>
                                + cnt \<lparr>root = Some 12, cnt = 2, cmp = int_less\<rparr>)"
      and "empty_q 1 w' = Some True"
      by (elim exE conjE)
    with c show ?thesis
      by (intro exI[of _ w']) simp
  qed
qed

section \<open>Pushing, then popping everything\<close>

lemma size_elems: "size (elems t) = length (addrs t)"
  by (induction t) simp_all

lemma push_all_returns:
  assumes su: "suits c R" and tot: "\<forall>x y. c x y \<noteq> None"
  shows "world_inv c R w sh \<Longrightarrow> queues w i = Some q \<Longrightarrow> length es \<le> length (free (mem w))
     \<Longrightarrow> \<exists>w' t q'. push_all i es w = Some (Ok () w') \<and> world_inv c R w' (sh(i := t))
            \<and> queues w' i = Some q' \<and> elems t = elems (sh i) + mset es"
proof (induction es arbitrary: w sh q)
  case Nil
  have "sh(i := sh i) = sh"
    by simp
  with Nil show ?case
    by (intro exI[of _ w] exI[of _ "sh i"] exI[of _ q]) simp
next
  case (Cons e es)
  note inv = Cons.prems(1) and q = Cons.prems(2)
  from Cons.prems(3) obtain n fs where fr: "free (mem w) = n # fs"
    by (cases "free (mem w)") simp_all
  from meld_sh_total[OF tot, of "sh i" "Cell n e 1 Null Null"] obtain t1 where
    m: "meld_sh c (sh i) (Cell n e 1 Null Null) = Some t1"
    by auto
  from push_returns[OF su inv q fr m] obtain w1 where p: "push i e w = Some (Ok () w1)"
    and inv1: "world_inv c R w1 (sh(i := t1))" and f1: "free (mem w1) = fs"
    and qs: "queues w1 = (queues w)(i \<mapsto> q\<lparr>root := root_of t1, cnt := cnt q + 1\<rparr>)"
    by (elim exE conjE)
  from qs have q1: "queues w1 i = Some (q\<lparr>root := root_of t1, cnt := cnt q + 1\<rparr>)"
    by simp
  from Cons.prems(3) fr f1 have len: "length es \<le> length (free (mem w1))"
    by simp
  from Cons.IH[OF inv1 q1 len] obtain w' t q' where
    pa: "push_all i es w1 = Some (Ok () w')"
    and inv': "world_inv c R w' ((sh(i := t1))(i := t))"
    and q': "queues w' i = Some q'"
    and el: "elems t = elems ((sh(i := t1)) i) + mset es"
    by (elim exE conjE)
  from meld_sh_elems[OF m] el have 3: "elems t = elems (sh i) + mset (e # es)"
    by simp
  from p pa have 1: "push_all i (e # es) w = Some (Ok () w')"
    by simp
  from inv' have 2: "world_inv c R w' (sh(i := t))"
    by simp
  from 1 2 q' 3 show ?case
    by (intro exI[of _ w'] exI[of _ t] exI[of _ q'] conjI)
qed

lemma pop_all_returns:
  assumes su: "suits c R" and tot: "\<forall>x y. c x y \<noteq> None"
  shows "world_inv c R w sh \<Longrightarrow> queues w i = Some q \<Longrightarrow> n = length (addrs (sh i))
     \<Longrightarrow> \<exists>vs w'. pop_all i n w = Some (Ok vs w') \<and> mset vs = elems (sh i)
            \<and> sorted_wrt R vs \<and> size_q i w' = Some 0"
proof (induction n arbitrary: w sh q)
  case 0
  then have "sh i = Null"
    by (cases "sh i") simp_all
  moreover from inv_queue(2)[OF "0.prems"(1,2)] "0.prems"(2,3) have "size_q i w = Some 0"
    by (simp add: size_q_def)
  ultimately show ?case
    by (intro exI[of _ "[]"] exI[of _ w]) simp
next
  case (Suc n)
  note inv = Suc.prems(1) and q = Suc.prems(2)
  from Suc.prems(3) obtain a v d l r where sh: "sh i = Cell a v d l r"
    by (cases "sh i") simp_all
  have tp: "top_q i w = Some (Ok v w)"
    by (rule top_q_returns[OF inv q sh])
  from meld_sh_total[OF tot, of l r] obtain t where m: "meld_sh c l r = Some t"
    by auto
  from pop_returns[OF su inv q sh m] obtain w1 where p: "pop i w = Some (Ok () w1)"
    and inv1: "world_inv c R w1 (sh(i := t))"
    and qs: "queues w1 = (queues w)(i \<mapsto> q\<lparr>root := root_of t, cnt := cnt q - 1\<rparr>)"
    by (elim exE conjE)
  from qs have q1: "queues w1 i = Some (q\<lparr>root := root_of t, cnt := cnt q - 1\<rparr>)"
    by simp
  have el: "elems t = elems l + elems r"
    by (rule meld_sh_elems[OF m])
  have "mset (addrs t) = mset (addrs l @ addrs r)"
    using meld_sh_addrs[OF m] by simp
  from mset_eq_length[OF this] have "length (addrs t) = length (addrs l) + length (addrs r)"
    by simp
  with Suc.prems(3) sh have len: "n = length (addrs ((sh(i := t)) i))"
    by simp
  from Suc.IH[OF inv1 q1 len] obtain vs w' where
    pa: "pop_all i n w1 = Some (Ok vs w')" and ms: "mset vs = elems ((sh(i := t)) i)"
    and so: "sorted_wrt R vs" and sz: "size_q i w' = Some 0"
    by (elim exE conjE)
  from ms el have ms': "mset vs = elems l + elems r"
    by simp
  from inv_ordered[OF inv, of i] sh have "\<forall>x \<in># elems l + elems r. R v x"
    by simp
  with ms' have "\<forall>x \<in> set vs. R v x"
    by (metis set_mset_mset)
  with so have "sorted_wrt R (v # vs)"
    by simp
  moreover from ms' sh have "mset (v # vs) = elems (sh i)"
    by simp
  moreover note sz
  moreover from tp p pa have "pop_all i (Suc n) w = Some (Ok (v # vs) w')"
    by simp
  ultimately show ?case
    using sz by (intro exI[of _ "v # vs"] exI[of _ w'] conjI)
qed

text \<open>
  C5. Let the comparator be a strict weak order \<open>lt\<close> that never throws. From a reachable
  state in which a queue is empty and the allocator has room for the elements \<open>es\<close>,
  pushing them all returns, and reading \<open>top()\<close> and calling \<open>pop()\<close> as many times as
  there are elements returns too; the values read are the pushed elements, each as often as
  it was pushed, and none of them is less than one read after it. The queue is empty again
  at the end.
\<close>

theorem heap_sort:
  assumes "strict_weak_order lt" and "distinct fs"
    and "run (\<lambda>x y. Some (lt x y)) xs (start fs) = Some w"
    and "queues w i = Some q" and "cnt q = 0"
    and "length es \<le> length (free (mem w))"
  shows "\<exists>w1 w2 vs. push_all i es w = Some (Ok () w1)
           \<and> pop_all i (length es) w1 = Some (Ok vs w2)
           \<and> mset vs = mset es
           \<and> sorted_wrt (\<lambda>a b. \<not> lt a b) vs
           \<and> size_q i w2 = Some 0"
proof -
  let ?c = "\<lambda>x y. Some (lt x y)"
  let ?R = "\<lambda>v x. \<not> lt v x"
  have ag: "\<forall>x y b. ?c x y = Some b \<longrightarrow> b = lt x y"
    by simp
  have tot: "\<forall>x y. ?c x y \<noteq> None"
    by simp
  note su = order_suits[OF assms(1) ag]
  from reachable_inv[OF su assms(2,3)] obtain sh where inv: "world_inv ?c ?R w sh"
    by (elim exE)
  have e: "sh i = Null"
    by (rule inv_empty[OF inv assms(4,5)])
  from push_all_returns[OF su tot inv assms(4,6)] obtain w1 t q1 where
    pa: "push_all i es w = Some (Ok () w1)" and inv1: "world_inv ?c ?R w1 (sh(i := t))"
    and q1: "queues w1 i = Some q1" and el: "elems t = elems (sh i) + mset es"
    by (elim exE conjE)
  from el e have el': "elems t = mset es"
    by simp
  have "length es = length (addrs t)"
    using size_elems[of t] el' by simp
  then have len: "length es = length (addrs ((sh(i := t)) i))"
    by simp
  from pop_all_returns[OF su tot inv1 q1 len] obtain vs w2 where
    "pop_all i (length es) w1 = Some (Ok vs w2)" and "mset vs = elems ((sh(i := t)) i)"
    and "sorted_wrt ?R vs" and "size_q i w2 = Some 0"
    by (elim exE conjE)
  with pa el' show ?thesis
    by (intro exI[of _ w1] exI[of _ w2] exI[of _ vs]) simp
qed

theorem heap_sort_witness:
  "\<exists>w1 w2 vs. push_all 0 [5, 3, 8, 1] fresh_world = Some (Ok () w1)
      \<and> pop_all 0 (length [5, 3, 8, 1 :: int]) w1 = Some (Ok vs w2)
      \<and> mset vs = mset [5, 3, 8, 1]
      \<and> sorted_wrt (\<lambda>a b. \<not> a < b) vs
      \<and> size_q 0 w2 = Some 0"
proof -
  have d: "distinct [10, 11, 12, 13 :: nat]"
    by simp
  have c: "int_less = (\<lambda>x y. Some (x < y))"
    by (auto simp: int_less_def fun_eq_iff)
  have r: "run (\<lambda>x y. Some (x < y)) [Construct 0] (start [10, 11, 12, 13]) = Some fresh_world"
    using fresh_world_reachable c by simp
  have q: "queues fresh_world 0 = Some \<lparr>root = None, cnt = 0, cmp = int_less\<rparr>"
    by (simp add: fresh_world_def)
  have n: "cnt \<lparr>root = None, cnt = 0, cmp = int_less\<rparr> = 0"
    by simp
  have l: "length [5, 3, 8, 1 :: int] \<le> length (free (mem fresh_world))"
    by (simp add: fresh_world_def)
  from heap_sort[OF int_less_order d r q n l] show ?thesis .
qed

text \<open>
  In a reachable state \<open>push\<close>, \<open>pop\<close> and \<open>merge\<close> on existing queues always end, by
  returning or by throwing: they neither run forever nor read through a dangling pointer.
\<close>

lemma reachable_call_ends:
  assumes "distinct fs" and "run c xs (start fs) = Some w"
    and "queues w i = Some q" and "queues w j = Some ot"
  shows "\<exists>r1 r2 r3. push i e w = Some r1 \<and> pop i w = Some r2 \<and> merge i j w = Some r3"
proof -
  from reachable_inv[OF any_suits assms(1,2)] obtain sh where
    inv: "world_inv c (\<lambda>v x. True) w sh"
    by (elim exE)
  note q = assms(3) and ot = assms(4)
  have 1: "\<exists>r. push i e w = Some r"
  proof (cases "free (mem w)")
    case Nil
    from push_no_memory[OF q Nil] show ?thesis
      by simp
  next
    case (Cons n fs')
    show ?thesis
    proof (cases "meld_sh c (sh i) (Cell n e 1 Null Null)")
      case None
      from push_compare_throws[OF inv q Cons None] show ?thesis
        by simp
    next
      case (Some t)
      from push_returns[OF any_suits inv q Cons Some] show ?thesis
        by (elim exE conjE) simp
    qed
  qed
  have 2: "\<exists>r. pop i w = Some r"
  proof (cases "cnt q = 0")
    case True
    from pop_empty[OF q True] show ?thesis
      by simp
  next
    case False
    from inv_nonempty[OF inv q False] obtain a v d l r where sh: "sh i = Cell a v d l r"
      by (elim exE)
    show ?thesis
    proof (cases "meld_sh c l r")
      case None
      from pop_compare_throws[OF inv q sh None] show ?thesis
        by simp
    next
      case (Some t)
      from pop_returns[OF any_suits inv q sh Some] show ?thesis
        by (elim exE conjE) simp
    qed
  qed
  have 3: "\<exists>r. merge i j w = Some r"
  proof (cases "i = j")
    case True
    then show ?thesis
      by (simp add: merge_def)
  next
    case False
    show ?thesis
    proof (cases "meld_sh c (sh i) (sh j)")
      case None
      from merge_compare_throws[OF inv False q ot None] show ?thesis
        by simp
    next
      case (Some t)
      from merge_returns[OF any_suits inv False q ot Some] show ?thesis
        by (elim exE conjE) simp
    qed
  qed
  from 1 2 3 show ?thesis
    by (elim exE) (intro exI conjI, assumption+)
qed

end
